theory Spec2Isabelle
  imports Complex_Main
begin

unbundle bit_operations_syntax

section \<open>Speed editor to Mackie control bridge: the model\<close>

text \<open>
  A shallow embedding of \<^verbatim>\<open>speed-editor-to-mackie.py\<close>. The class \<^verbatim>\<open>MackieHandler\<close>
  becomes a record, every method a function from the state before the call to the state
  after it, and a raised exception the left summand of the result. Python integers are
  \<^typ>\<open>int\<close>; \<^verbatim>\<open>//\<close> on them is \<open>div\<close> (both round towards minus infinity).
\<close>

subsection \<open>Types of the device library\<close>

text \<open>
  The enumerations \<^verbatim>\<open>SpeedEditorKey\<close>, \<^verbatim>\<open>SpeedEditorJogLed\<close> and \<^verbatim>\<open>SpeedEditorJogMode\<close>
  are imported from the module \<^verbatim>\<open>bmd\<close>. The keys the handler names are constructors of
  their own; every other key of the device is \<open>OTHER_KEY n\<close>.
\<close>

datatype SpeedEditorKey =
    SHTL | JOG | SCRL | ROLL | STOP_PLAY | FULL_VIEW | CUT | SPLIT | LIVE_OWR | ESC
  | TRANS | RIPL_DEL | IN | OUT | TRIM_IN | TRIM_OUT | OTHER_KEY nat

datatype SpeedEditorJogLed = LED_SHTL | LED_JOG | LED_SCRL

datatype SpeedEditorJogMode = RELATIVE_2 | OTHER_JOG_MODE nat

text \<open>
  The flag enumeration \<^verbatim>\<open>SpeedEditorLed\<close> is declared in \<^verbatim>\<open>bmd\<close> as well; the handler only
  combines its members, so the enumeration is a parameter here: the values of the flags
  \<^verbatim>\<open>CAM1\<close> ... \<^verbatim>\<open>CAM9\<close>, and \<open>all_bits\<close>, the bits of all the flags the enumeration
  declares together (the camera flags among them).
\<close>

record SpeedEditorLed =
  all_bits :: int
  CAM1 :: int
  CAM2 :: int
  CAM3 :: int
  CAM4 :: int
  CAM5 :: int
  CAM6 :: int
  CAM7 :: int
  CAM8 :: int
  CAM9 :: int

datatype KeyModifiers = NUDGE

fun KeyModifiers_value :: "KeyModifiers \<Rightarrow> int" where
  "KeyModifiers_value NUDGE = 1"

subsection \<open>Messages, device calls and errors\<close>

text \<open>What \<^verbatim>\<open>midi_out.send\<close> is given: \<^verbatim>\<open>note_on\<close> with note and velocity, or
  \<^verbatim>\<open>control_change\<close> with control and value.\<close>

datatype midi_msg = Note_on int int | Control_change int int

text \<open>What \<^verbatim>\<open>midi_in.receive\<close> returns: the message type and, for a note, its number and
  velocity.\<close>

datatype in_msg = In_msg (msg_type: string) (msg_note: int) (msg_velocity: int)

text \<open>The calls the handler makes on the device object \<^verbatim>\<open>self.se\<close>.\<close>

datatype se_call = Set_leds int | Set_jog_leds SpeedEditorJogLed | Set_jog_mode SpeedEditorJogMode

datatype py_error = KeyError | RuntimeError

text \<open>
  A history of calls, kept beside the program state and read by no branch of the model:
  \<open>Released k\<close> and \<open>Pressed k\<close> for each call of \<^verbatim>\<open>key_released\<close> and \<^verbatim>\<open>key_pressed\<close>,
  \<open>Steps m v\<close> for each non-zero \<^verbatim>\<open>value_to_send\<close> that \<^verbatim>\<open>jog\<close> hands to an encoder while
  the jog mode is \<open>m\<close>.
\<close>

datatype call = Released SpeedEditorKey | Pressed SpeedEditorKey | Steps SpeedEditorKey int

subsection \<open>Class constants\<close>

definition JOG_table :: "SpeedEditorKey \<rightharpoonup> SpeedEditorJogLed \<times> SpeedEditorJogMode" where
  "JOG_table = [SHTL \<mapsto> (LED_SHTL, RELATIVE_2), JOG \<mapsto> (LED_JOG, RELATIVE_2),
                SCRL \<mapsto> (LED_SCRL, RELATIVE_2)]"

definition JOG_SPEED_DIV_FACTOR :: "SpeedEditorKey \<rightharpoonup> int" where
  "JOG_SPEED_DIV_FACTOR = [SHTL \<mapsto> 20, JOG \<mapsto> 15, SCRL \<mapsto> 1]"

definition MCU_JOG_CC :: int where "MCU_JOG_CC = 0x3c"
definition MCU_STOP :: int where "MCU_STOP = 0x5D"
definition MCU_PLAY :: int where "MCU_PLAY = 0x5E"
definition MCU_REC :: int where "MCU_REC = 0x5F"
definition MCU_UP :: int where "MCU_UP = 0x60"
definition MCU_DOWN :: int where "MCU_DOWN = 0x61"
definition MCU_LEFT :: int where "MCU_LEFT = 0x62"
definition MCU_RIGHT :: int where "MCU_RIGHT = 0x63"
definition MCU_ZOOM :: int where "MCU_ZOOM = 0x64"
definition MCU_SCRUB :: int where "MCU_SCRUB = 0x65"
definition MCU_USER_A :: int where "MCU_USER_A = 0x66"
definition MCU_USER_B :: int where "MCU_USER_B = 0x67"
definition MCU_F1 :: int where "MCU_F1 = 0x36"
definition MCU_F2 :: int where "MCU_F2 = 0x37"
definition MCU_F3 :: int where "MCU_F3 = 0x38"
definition MCU_F4 :: int where "MCU_F4 = 0x39"
definition MCU_F5 :: int where "MCU_F5 = 0x3a"
definition MCU_F6 :: int where "MCU_F6 = 0x3b"
definition MCU_F7 :: int where "MCU_F7 = 0x3c"
definition MCU_F8 :: int where "MCU_F8 = 0x3d"

definition ZOOM_KEYS :: "SpeedEditorKey list" where
  "ZOOM_KEYS = [IN, OUT, TRIM_IN, TRIM_OUT]"

definition MODIFIER_KEY_MAP :: "SpeedEditorKey \<rightharpoonup> KeyModifiers" where
  "MODIFIER_KEY_MAP = [ROLL \<mapsto> NUDGE]"

definition RAMP_THRESHOLD :: int where "RAMP_THRESHOLD = 5"
definition RAMP_FACTOR :: int where "RAMP_FACTOR = 5"

subsection \<open>The state\<close>

text \<open>
  \<^verbatim>\<open>modifiers = set()\<close> stands in the class body: it is one set object, an attribute of
  the class \<^verbatim>\<open>MackieHandler\<close>, and \<^verbatim>\<open>self.modifiers\<close> reads it through every instance
  (no method assigns \<^verbatim>\<open>self.modifiers\<close>; \<^verbatim>\<open>add\<close> and \<^verbatim>\<open>remove\<close> mutate the one object).
  The record \<open>MackieHandler_class\<close> holds that attribute; \<open>MackieHandler\<close> extends it by the
  attributes \<^verbatim>\<open>__init__\<close> assigns on the instance, so a value of \<open>MackieHandler\<close> is what
  a method sees through \<^verbatim>\<open>self\<close>.

  Three fields stand for the world outside: \<open>midi_out\<close> lists the messages sent on
  \<^verbatim>\<open>self.midi_out\<close>, \<open>se\<close> the calls made on the device \<^verbatim>\<open>self.se\<close>, and \<open>timers\<close> counts the
  \<^verbatim>\<open>threading.Timer\<close> objects started and not yet fired. \<open>history\<close> is the history of calls.
\<close>

record MackieHandler_class =
  modifiers :: "KeyModifiers set"

record MackieHandler = MackieHandler_class +
  zoom_timer_on :: bool
  keys :: "SpeedEditorKey set"
  leds :: int
  play_state :: bool
  zoom_mode :: bool
  scrub_mode :: bool
  jog_unsent :: int
  jog_mode :: SpeedEditorKey
  midi_out :: "midi_msg list"
  se :: "se_call list"
  timers :: nat
  history :: "call list"

subsection \<open>Sending\<close>

definition send_midi_note :: "int \<Rightarrow> MackieHandler \<Rightarrow> MackieHandler" where
  "send_midi_note note st = st\<lparr>midi_out := midi_out st @ [Note_on note 127]\<rparr>"

text \<open>
  The loop of \<^verbatim>\<open>send_midi_jog_cc\<close>: \<^verbatim>\<open>while abs_val_full > 0\<close>, one message for each round.
  \<^verbatim>\<open>int(shift < 0) << 6\<close> is \<open>push_bit 6\<close> of 1 or 0.
\<close>

function send_midi_jog_cc_loop :: "int \<Rightarrow> int \<Rightarrow> MackieHandler \<Rightarrow> MackieHandler" where
  "send_midi_jog_cc_loop shift abs_val_full st =
     (if abs_val_full > 0 then
        let abs_val = (if abs_val_full > 63 then 63 else abs_val_full);
            sign = push_bit 6 (if shift < 0 then 1 else 0 :: int);
            val = abs_val OR sign
        in send_midi_jog_cc_loop shift (abs_val_full - abs_val)
             (st\<lparr>midi_out := midi_out st @ [Control_change MCU_JOG_CC val]\<rparr>)
      else st)"
  by pat_completeness auto
termination
  by (relation "measure (\<lambda>(shift, abs_val_full, st). nat abs_val_full)") auto

declare send_midi_jog_cc_loop.simps [simp del]

definition send_midi_jog_cc :: "int \<Rightarrow> MackieHandler \<Rightarrow> MackieHandler" where
  "send_midi_jog_cc shift st = send_midi_jog_cc_loop shift \<bar>shift\<bar> st"

text \<open>\<^verbatim>\<open>for i in range(0, abs_val)\<close> runs \<open>nat abs_val\<close> times, and not at all when
  \<open>abs_val \<le> 0\<close>.\<close>

definition send_midi_nudge_msgs :: "int \<Rightarrow> MackieHandler \<Rightarrow> MackieHandler" where
  "send_midi_nudge_msgs shift st =
     (let abs_val = \<bar>shift\<bar>;
          abs_val = (if abs_val > RAMP_THRESHOLD
                     then (abs_val - RAMP_THRESHOLD) * RAMP_FACTOR + RAMP_THRESHOLD
                     else abs_val);
          msg = (if NUDGE \<in> modifiers st
                 then (if shift < 0 then MCU_USER_A else MCU_USER_B)
                 else (if shift < 0 then MCU_F1 else MCU_F2))
      in fold (\<lambda>i. send_midi_note msg) [0..<nat abs_val] st)"

subsection \<open>Jog\<close>

definition set_jog_mode_for_key :: "SpeedEditorKey \<Rightarrow> MackieHandler \<Rightarrow> MackieHandler" where
  "set_jog_mode_for_key key st =
     (case JOG_table key of
        None \<Rightarrow> st
      | Some (led, mode) \<Rightarrow>
          st\<lparr>jog_mode := key, se := se st @ [Set_jog_leds led, Set_jog_mode mode]\<rparr>)"

text \<open>
  \<^verbatim>\<open>jog(self, mode, value)\<close>; the argument \<^verbatim>\<open>mode\<close> is not read. The subscript
  \<^verbatim>\<open>JOG_SPEED_DIV_FACTOR[self.jog_mode]\<close> raises \<^verbatim>\<open>KeyError\<close> on a key outside the table.
\<close>

definition jog :: "SpeedEditorJogMode \<Rightarrow> int \<Rightarrow> MackieHandler \<Rightarrow> py_error + MackieHandler" where
  "jog mode value st =
     (let value = value div 360;
          st = st\<lparr>jog_unsent := jog_unsent st + value\<rparr>
      in case JOG_SPEED_DIV_FACTOR (jog_mode st) of
           None \<Rightarrow> Inl KeyError
         | Some speed_div_factor \<Rightarrow>
             (let value_to_send = jog_unsent st div speed_div_factor
              in if value_to_send = 0 then Inr st
                 else
                   (let st = st\<lparr>jog_unsent := jog_unsent st - value_to_send * speed_div_factor,
                                history := history st @ [Steps (jog_mode st) value_to_send]\<rparr>
                    in if jog_mode st = SHTL
                       then Inr (send_midi_nudge_msgs value_to_send st)
                       else Inr (send_midi_jog_cc value_to_send st))))"

subsection \<open>Zoom keys and the repeat timer\<close>

definition set_zoom_mode :: "MackieHandler \<Rightarrow> MackieHandler" where
  "set_zoom_mode st = (if \<not> zoom_mode st then send_midi_note MCU_ZOOM st else st)"

text \<open>\<^verbatim>\<open>threading.Timer(...).start()\<close> adds one outstanding timer.\<close>

definition set_zoom_timer :: "MackieHandler \<Rightarrow> MackieHandler" where
  "set_zoom_timer st =
     (if \<not> zoom_timer_on st
      then st\<lparr>zoom_timer_on := True, timers := Suc (timers st)\<rparr>
      else st)"

definition zoom_handle_keys :: "MackieHandler \<Rightarrow> MackieHandler" where
  "zoom_handle_keys st =
     (let zoom_pressed = list_ex (\<lambda>k. k \<in> keys st) ZOOM_KEYS;
          st = (if zoom_pressed then set_zoom_mode st else st);
          st = (if IN \<in> keys st then send_midi_note MCU_RIGHT st else st);
          st = (if OUT \<in> keys st then send_midi_note MCU_LEFT st else st);
          st = (if TRIM_IN \<in> keys st then send_midi_note MCU_DOWN st else st);
          st = (if TRIM_OUT \<in> keys st then send_midi_note MCU_UP st else st)
      in if zoom_pressed then set_zoom_timer st else st)"

definition zoom_repeat :: "MackieHandler \<Rightarrow> MackieHandler" where
  "zoom_repeat st = zoom_handle_keys (st\<lparr>zoom_timer_on := False\<rparr>)"

subsection \<open>Modifiers and keys\<close>

text \<open>\<^verbatim>\<open>if modifier:\<close> is false for \<^verbatim>\<open>None\<close> and for a member whose value is 0.\<close>

definition modifier_pressed :: "SpeedEditorKey \<Rightarrow> MackieHandler \<Rightarrow> MackieHandler" where
  "modifier_pressed k st =
     (case MODIFIER_KEY_MAP k of
        None \<Rightarrow> st
      | Some modifier \<Rightarrow>
          if KeyModifiers_value modifier \<noteq> 0
          then st\<lparr>modifiers := insert modifier (modifiers st)\<rparr>
          else st)"

text \<open>\<^verbatim>\<open>set.remove\<close> raises \<^verbatim>\<open>KeyError\<close> when the element is not in the set.\<close>

definition modifier_released :: "SpeedEditorKey \<Rightarrow> MackieHandler \<Rightarrow> py_error + MackieHandler" where
  "modifier_released k st =
     (case MODIFIER_KEY_MAP k of
        None \<Rightarrow> Inr st
      | Some modifier \<Rightarrow>
          if KeyModifiers_value modifier \<noteq> 0
          then (if modifier \<in> modifiers st
                then Inr (st\<lparr>modifiers := modifiers st - {modifier}\<rparr>)
                else Inl KeyError)
          else Inr st)"

definition key_released :: "SpeedEditorKey \<Rightarrow> MackieHandler \<Rightarrow> py_error + MackieHandler" where
  "key_released k st = modifier_released k (st\<lparr>history := history st @ [Released k]\<rparr>)"

definition key_pressed :: "SpeedEditorKey \<Rightarrow> MackieHandler \<Rightarrow> MackieHandler" where
  "key_pressed k st =
     (let st = st\<lparr>history := history st @ [Pressed k]\<rparr>;
          st = set_jog_mode_for_key k st;
          st = modifier_pressed k st;
          st = (if k = STOP_PLAY
                then (if play_state st then send_midi_note MCU_STOP st
                      else send_midi_note MCU_PLAY st)
                else st);
          st = (if k = FULL_VIEW then send_midi_note MCU_REC st else st);
          st = (if k = CUT then send_midi_note MCU_F3 st else st);
          st = (if k = SPLIT then send_midi_note MCU_F4 st else st);
          st = (if k = LIVE_OWR then send_midi_note MCU_F5 st else st);
          st = (if k = ESC then send_midi_note MCU_F6 st else st);
          st = (if k = TRANS then send_midi_note MCU_F7 st else st);
          st = (if k = RIPL_DEL then send_midi_note MCU_F8 st else st)
      in if k \<in> set ZOOM_KEYS then zoom_handle_keys st else st)"

text \<open>The two loops of \<^verbatim>\<open>key\<close>; an exception in \<^verbatim>\<open>key_released\<close> ends the call.\<close>

fun for_released :: "SpeedEditorKey list \<Rightarrow> MackieHandler \<Rightarrow> py_error + MackieHandler" where
  "for_released [] st = Inr st"
| "for_released (k # ks) st =
     (case key_released k st of Inl e \<Rightarrow> Inl e | Inr st' \<Rightarrow> for_released ks st')"

fun for_pressed :: "SpeedEditorKey list \<Rightarrow> MackieHandler \<Rightarrow> MackieHandler" where
  "for_pressed [] st = st"
| "for_pressed (k # ks) st = for_pressed ks (key_pressed k st)"

text \<open>
  \<^verbatim>\<open>key(self, keys)\<close>. A \<^verbatim>\<open>for\<close> loop over a Python set visits every element once, in an
  order the language does not fix: \<open>iter\<close> gives the order in which a set is visited.
  The line printed at the start (\<^verbatim>\<open>Keys held: ...\<close>) is left out.
\<close>

definition key ::
  "(SpeedEditorKey set \<Rightarrow> SpeedEditorKey list) \<Rightarrow> SpeedEditorKey list \<Rightarrow> MackieHandler
     \<Rightarrow> py_error + MackieHandler" where
  "key iter ks st =
     (let keys_set = set ks;
          released = keys st - keys_set;
          pressed = keys_set - keys st;
          st = st\<lparr>keys := keys_set\<rparr>
      in case for_released (iter released) st of
           Inl e \<Rightarrow> Inl e
         | Inr st \<Rightarrow> Inr (for_pressed (iter pressed) st))"

subsection \<open>Inbound messages\<close>

text \<open>
  The operators \<^verbatim>\<open>|\<close> and \<^verbatim>\<open>&\<close> are \<open>OR\<close> and \<open>AND\<close> on \<^typ>\<open>int\<close>. The operand of \<^verbatim>\<open>~\<close> is
  a value of the flag enumeration, and its complement is one again: the flags of the
  enumeration that the operand does not hold, with no bit outside \<open>all_bits\<close>. (Before
  Python 3.11 the complement was \<open>NOT\<close> on the integer; the two agree wherever the other
  operand of \<^verbatim>\<open>&\<close> has no bit outside \<open>all_bits\<close>.)
\<close>

definition flag_invert :: "SpeedEditorLed \<Rightarrow> int \<Rightarrow> int" where
  "flag_invert L x = all_bits L AND NOT x"

text \<open>One round of the loop of \<^verbatim>\<open>receive_thread\<close>, for the message received.\<close>

definition led_set :: "SpeedEditorLed \<Rightarrow> int" where
  "led_set L = CAM1 L OR CAM2 L OR CAM3 L OR CAM4 L OR CAM5 L OR CAM6 L OR CAM7 L
                 OR CAM8 L OR CAM9 L"

definition receive :: "SpeedEditorLed \<Rightarrow> in_msg \<Rightarrow> MackieHandler \<Rightarrow> MackieHandler" where
  "receive L msg st =
     (if msg_type msg = ''note_on'' then
        (let st = (if msg_note msg = MCU_PLAY then
                     (let st = st\<lparr>play_state := msg_velocity msg > 0\<rparr>;
                          st = st\<lparr>leds := leds st AND flag_invert L (led_set L)\<rparr>;
                          st = (if play_state st then st\<lparr>leds := leds st OR led_set L\<rparr>
                                else st)
                      in st\<lparr>se := se st @ [Set_leds (leds st)]\<rparr>)
                   else st);
             st = (if msg_note msg = MCU_ZOOM then st\<lparr>zoom_mode := msg_velocity msg > 0\<rparr>
                   else st);
             st = (if msg_note msg = MCU_SCRUB then st\<lparr>scrub_mode := msg_velocity msg > 0\<rparr>
                   else st)
         in st)
      else st)"

subsection \<open>Construction\<close>

text \<open>\<^verbatim>\<open>n.startswith(device)\<close>, and the first such name or \<^verbatim>\<open>None\<close>; \<^verbatim>\<open>not full_device\<close>
  holds for \<^verbatim>\<open>None\<close> and for the empty string.\<close>

definition startswith :: "string \<Rightarrow> string \<Rightarrow> bool" where
  "startswith n device = (take (length device) n = device)"

definition find_device_in_list :: "string \<Rightarrow> string list \<Rightarrow> py_error + string" where
  "find_device_in_list device list =
     (case find (\<lambda>n. startswith n device) list of
        None \<Rightarrow> Inl RuntimeError
      | Some full_device \<Rightarrow> if full_device = [] then Inl RuntimeError else Inr full_device)"

definition midi_in_device :: string where "midi_in_device = ''mackieIn''"
definition midi_out_device :: string where "midi_out_device = ''mackieOut''"

text \<open>
  \<^verbatim>\<open>__init__(self, se)\<close>, given the class attributes and the port names that
  \<^verbatim>\<open>mido.get_output_names()\<close> and \<^verbatim>\<open>mido.get_input_names()\<close> return. It assigns the instance
  attributes and never \<^verbatim>\<open>modifiers\<close>. The attribute \<^verbatim>\<open>jog_mode\<close> does not exist before the
  call of \<^verbatim>\<open>_set_jog_mode_for_key\<close>, which assigns it, \<^verbatim>\<open>JOG\<close> being a key of the table;
  until then the field holds a key outside the table.
\<close>

definition init :: "MackieHandler_class \<Rightarrow> string list \<Rightarrow> string list \<Rightarrow> py_error + MackieHandler" where
  "init c output_names input_names =
     (let st = \<lparr>modifiers = modifiers c, zoom_timer_on = False, keys = {}, leds = 0,
                play_state = False, zoom_mode = False, scrub_mode = False, jog_unsent = 0,
                jog_mode = OTHER_KEY 0, midi_out = [], se = [Set_leds 0], timers = 0,
                history = []\<rparr>;
          st = set_jog_mode_for_key JOG st
      in case find_device_in_list midi_in_device output_names of
           Inl e \<Rightarrow> Inl e
         | Inr _ \<Rightarrow>
             (case find_device_in_list midi_out_device input_names of
                Inl e \<Rightarrow> Inl e
              | Inr _ \<Rightarrow> Inr st))"

subsection \<open>Several instances\<close>

text \<open>
  The objects of a process: the one set bound to the class attribute \<^verbatim>\<open>modifiers\<close>, and
  the instance attributes of each handler constructed so far. A method called on
  instance \<open>i\<close> sees the class attribute and the attributes of \<open>i\<close>, and what it leaves
  is stored back in both places. A call on an index that has no instance does nothing.
\<close>

record process =
  class_modifiers :: "KeyModifiers set"
  instances :: "unit MackieHandler_ext list"

definition self_of :: "process \<Rightarrow> nat \<Rightarrow> MackieHandler" where
  "self_of p i = \<lparr>modifiers = class_modifiers p, \<dots> = instances p ! i\<rparr>"

definition store_self :: "nat \<Rightarrow> MackieHandler \<Rightarrow> process \<Rightarrow> process" where
  "store_self i st p =
     p\<lparr>class_modifiers := modifiers st,
       instances := (instances p)[i := MackieHandler_class.more st]\<rparr>"

definition call_on :: "nat \<Rightarrow> (MackieHandler \<Rightarrow> py_error + MackieHandler) \<Rightarrow> process
     \<Rightarrow> py_error + process" where
  "call_on i method p =
     (if i < length (instances p)
      then (case method (self_of p i) of Inl e \<Rightarrow> Inl e | Inr st \<Rightarrow> Inr (store_self i st p))
      else Inr p)"

definition construct :: "string list \<Rightarrow> string list \<Rightarrow> process \<Rightarrow> py_error + process" where
  "construct output_names input_names p =
     (case init \<lparr>modifiers = class_modifiers p\<rparr> output_names input_names of
        Inl e \<Rightarrow> Inl e
      | Inr st \<Rightarrow>
          Inr (p\<lparr>class_modifiers := modifiers st,
                 instances := instances p @ [MackieHandler_class.more st]\<rparr>))"

text \<open>The process after the class body has run: \<^verbatim>\<open>modifiers = set()\<close>, no instance.\<close>

definition process0 :: process where
  "process0 = \<lparr>class_modifiers = {}, instances = []\<rparr>"

subsection \<open>Runs of one handler\<close>

text \<open>
  What happens to a handler after its construction: the polling loop calls \<^verbatim>\<open>key\<close> and
  \<^verbatim>\<open>jog\<close>, the receiving thread takes a message, a timer fires and calls \<^verbatim>\<open>zoom_repeat\<close>.
  Each is one step. A timer fires only if one is outstanding.
\<close>

datatype event =
    Ev_key "SpeedEditorKey list"
  | Ev_jog SpeedEditorJogMode int
  | Ev_receive in_msg
  | Ev_timer

definition timer_fire :: "MackieHandler \<Rightarrow> MackieHandler" where
  "timer_fire st = zoom_repeat (st\<lparr>timers := timers st - 1\<rparr>)"

fun step :: "(SpeedEditorKey set \<Rightarrow> SpeedEditorKey list) \<Rightarrow> SpeedEditorLed \<Rightarrow> event
     \<Rightarrow> MackieHandler \<Rightarrow> py_error + MackieHandler" where
  "step iter L (Ev_key ks) st = key iter ks st"
| "step iter L (Ev_jog mode value) st = jog mode value st"
| "step iter L (Ev_receive msg) st = Inr (receive L msg st)"
| "step iter L Ev_timer st = (if timers st = 0 then Inr st else Inr (timer_fire st))"

fun run :: "(SpeedEditorKey set \<Rightarrow> SpeedEditorKey list) \<Rightarrow> SpeedEditorLed \<Rightarrow> event list
     \<Rightarrow> MackieHandler \<Rightarrow> py_error + MackieHandler" where
  "run iter L [] st = Inr st"
| "run iter L (ev # evs) st =
     (case step iter L ev st of Inl e \<Rightarrow> Inl e | Inr st' \<Rightarrow> run iter L evs st')"

text \<open>The handler of the program: the only instance, constructed right after the class,
  with both ports present.\<close>

definition handler0 :: MackieHandler where
  "handler0 = \<lparr>modifiers = {}, zoom_timer_on = False, keys = {}, leds = 0,
                play_state = False, zoom_mode = False, scrub_mode = False, jog_unsent = 0,
                jog_mode = JOG, midi_out = [], se = [Set_leds 0, Set_jog_leds LED_JOG,
                Set_jog_mode RELATIVE_2], timers = 0, history = []\<rparr>"

subsection \<open>Notions of the specification\<close>

text \<open>The ramp of the nudge burst as the specification writes it: threshold 5,
  factor 5.\<close>

definition ramped :: "int \<Rightarrow> int" where
  "ramped r = (if r > 5 then 5 + (r - 5) * 5 else r)"

text \<open>The code the specification gives a nudge message: by the sign of the step count
  and by the modifier.\<close>

definition nudge_code :: "bool \<Rightarrow> int \<Rightarrow> int" where
  "nudge_code nudge_active s =
     (if nudge_active then (if s < 0 then MCU_USER_A else MCU_USER_B)
      else (if s < 0 then MCU_F1 else MCU_F2))"

text \<open>The encoder a step count goes to: the nudge burst in the mode \<open>SHTL\<close>, the
  control change in the others.\<close>

definition encode_steps :: "int \<Rightarrow> MackieHandler \<Rightarrow> MackieHandler" where
  "encode_steps v st =
     (if jog_mode st = SHTL then send_midi_nudge_msgs v st else send_midi_jog_cc v st)"

text \<open>A mask of LED flags: no bit outside the flags the enumeration declares.\<close>

definition led_flags_only :: "SpeedEditorLed \<Rightarrow> int \<Rightarrow> bool" where
  "led_flags_only L m = (m AND NOT (all_bits L) = 0)"

text \<open>The LED flags as an example: eighteen flags of one bit each, bits 0 to 17.\<close>

definition example_leds :: SpeedEditorLed where
  "example_leds = \<lparr>all_bits = 262143, CAM1 = 16384, CAM2 = 32768, CAM3 = 65536,
     CAM4 = 1024, CAM5 = 2048, CAM6 = 4096, CAM7 = 64, CAM8 = 128, CAM9 = 256\<rparr>"

text \<open>
  The jog translation as the specification writes it: both divisions truncate towards
  zero. \<open>tdiv\<close> is that division; \<open>jog_claimed\<close> is \<open>jog\<close> with \<open>tdiv\<close> in the place of
  \<^verbatim>\<open>//\<close>.
\<close>

definition tdiv :: "int \<Rightarrow> int \<Rightarrow> int" where
  "tdiv a b = sgn a * sgn b * (\<bar>a\<bar> div \<bar>b\<bar>)"

definition jog_claimed :: "SpeedEditorJogMode \<Rightarrow> int \<Rightarrow> MackieHandler \<Rightarrow> py_error + MackieHandler" where
  "jog_claimed mode raw_delta st =
     (let native_units = tdiv raw_delta 360;
          remainder_total = jog_unsent st + native_units
      in case JOG_SPEED_DIV_FACTOR (jog_mode st) of
           None \<Rightarrow> Inl KeyError
         | Some factor \<Rightarrow>
             (let steps = tdiv remainder_total factor
              in if steps = 0 then Inr (st\<lparr>jog_unsent := remainder_total\<rparr>)
                 else
                   Inr (encode_steps steps
                          (st\<lparr>jog_unsent := remainder_total - steps * factor,
                              history := history st @ [Steps (jog_mode st) steps]\<rparr>))))"

text \<open>The speed-division factor of a jog mode, 0 for a key that is no jog mode.\<close>

definition factor_of :: "SpeedEditorKey \<Rightarrow> int" where
  "factor_of m = (case JOG_SPEED_DIV_FACTOR m of None \<Rightarrow> 0 | Some f \<Rightarrow> f)"

text \<open>
  The rotation a run takes in and the rotation it gives out, both in native units:
  \<open>native_total\<close> adds \<^verbatim>\<open>value // 360\<close> over the jog calls of a run, \<open>sent_total\<close> adds, over
  the step counts handed to the encoders, the step count times the factor of the mode it
  was sent in.
\<close>

fun call_units :: "call \<Rightarrow> int" where
  "call_units (Steps m v) = v * factor_of m"
| "call_units (Released k) = 0"
| "call_units (Pressed k) = 0"

definition sent_total :: "call list \<Rightarrow> int" where
  "sent_total cs = sum_list (map call_units cs)"

fun event_units :: "event \<Rightarrow> int" where
  "event_units (Ev_jog mode value) = value div 360"
| "event_units (Ev_key ks) = 0"
| "event_units (Ev_receive msg) = 0"
| "event_units Ev_timer = 0"

definition native_total :: "event list \<Rightarrow> int" where
  "native_total evs = sum_list (map event_units evs)"

text \<open>
  What is known of the order of a \<^verbatim>\<open>for\<close> loop over a set: \<open>iter\<close> visits the set \<open>S\<close> if
  it lists every element of \<open>S\<close> once and nothing else, and it is a set iteration if it
  visits every finite set.
\<close>

definition visits :: "('a set \<Rightarrow> 'a list) \<Rightarrow> 'a set \<Rightarrow> bool" where
  "visits iter S = (set (iter S) = S \<and> distinct (iter S))"

definition set_iteration :: "('a set \<Rightarrow> 'a list) \<Rightarrow> bool" where
  "set_iteration iter = (\<forall>S. finite S \<longrightarrow> visits iter S)"

text \<open>One set iteration, to have an example: the keys in the order of a numbering.\<close>

fun key_index :: "SpeedEditorKey \<Rightarrow> nat" where
  "key_index SHTL = 0"
| "key_index JOG = 1"
| "key_index SCRL = 2"
| "key_index ROLL = 3"
| "key_index STOP_PLAY = 4"
| "key_index FULL_VIEW = 5"
| "key_index CUT = 6"
| "key_index SPLIT = 7"
| "key_index LIVE_OWR = 8"
| "key_index ESC = 9"
| "key_index TRANS = 10"
| "key_index RIPL_DEL = 11"
| "key_index IN = 12"
| "key_index OUT = 13"
| "key_index TRIM_IN = 14"
| "key_index TRIM_OUT = 15"
| "key_index (OTHER_KEY n) = 16 + n"

definition key_of_index :: "nat \<Rightarrow> SpeedEditorKey" where
  "key_of_index i =
     (if i < 16
      then [SHTL, JOG, SCRL, ROLL, STOP_PLAY, FULL_VIEW, CUT, SPLIT, LIVE_OWR, ESC, TRANS,
            RIPL_DEL, IN, OUT, TRIM_IN, TRIM_OUT] ! i
      else OTHER_KEY (i - 16))"

definition index_order :: "SpeedEditorKey set \<Rightarrow> SpeedEditorKey list" where
  "index_order S = map key_of_index (sorted_list_of_set (key_index ` S))"

text \<open>
  A held modifier key has its modifier active. The handler keeps this up as long as it
  is the only one to change the set \<^verbatim>\<open>modifiers\<close>.
\<close>

definition modifiers_paired :: "MackieHandler \<Rightarrow> bool" where
  "modifiers_paired st = (ROLL \<in> keys st \<longrightarrow> NUDGE \<in> modifiers st)"

text \<open>What holds of the handler after every step: the jog mode is a key of the tables,
  finitely many keys are held, the modifiers are paired, and the flag \<^verbatim>\<open>zoom_timer_on\<close>
  counts the outstanding timers.\<close>

definition handler_inv :: "MackieHandler \<Rightarrow> bool" where
  "handler_inv st =
     (jog_mode st \<in> {SHTL, JOG, SCRL} \<and> finite (keys st) \<and> modifiers_paired st
      \<and> timers st = (if zoom_timer_on st then 1 else 0))"

text \<open>One step after another on a result: an error ends the sequence.\<close>

definition and_then :: "py_error + 'a \<Rightarrow> ('a \<Rightarrow> py_error + 'b) \<Rightarrow> py_error + 'b" where
  "and_then r f = (case r of Inl e \<Rightarrow> Inl e | Inr x \<Rightarrow> f x)"

text \<open>
  Two handlers constructed one after the other in one process, both ports present, and
  what the handler \<open>i\<close> of a process sees as \<^verbatim>\<open>self.modifiers\<close> and \<^verbatim>\<open>self.keys\<close>.
\<close>

definition two_handlers :: "py_error + process" where
  "two_handlers =
     and_then (construct [''mackieIn''] [''mackieOut''] process0)
       (construct [''mackieIn''] [''mackieOut''])"

definition modifiers_of :: "nat \<Rightarrow> py_error + process \<Rightarrow> py_error + KeyModifiers set" where
  "modifiers_of i r = and_then r (\<lambda>p. Inr (modifiers (self_of p i)))"

definition keys_of :: "nat \<Rightarrow> py_error + process \<Rightarrow> py_error + SpeedEditorKey set" where
  "keys_of i r = and_then r (\<lambda>p. Inr (keys (self_of p i)))"

section \<open>Properties\<close>

lemmas MCU_defs = MCU_JOG_CC_def MCU_STOP_def MCU_PLAY_def MCU_REC_def MCU_UP_def
  MCU_DOWN_def MCU_LEFT_def MCU_RIGHT_def MCU_ZOOM_def MCU_SCRUB_def MCU_USER_A_def
  MCU_USER_B_def MCU_F1_def MCU_F2_def MCU_F3_def MCU_F4_def MCU_F5_def MCU_F6_def
  MCU_F7_def MCU_F8_def

lemma init_handler0:
  "init \<lparr>modifiers = {}\<rparr> [''mackieIn 1''] [''mackieOut 2''] = Inr handler0"
  by (simp add: init_def set_jog_mode_for_key_def JOG_table_def find_device_in_list_def
      startswith_def midi_in_device_def midi_out_device_def handler0_def)

subsection \<open>The jog control-change encoder\<close>

lemma bit6_of_small: "0 \<le> m \<Longrightarrow> m < 64 \<Longrightarrow> \<not> bit (m::int) 6"
  by (simp add: bit_iff_odd)

lemma and63_of_small: "0 \<le> m \<Longrightarrow> m < 64 \<Longrightarrow> (m::int) AND 63 = m"
  using take_bit_int_eq_self[of m 6] by (simp add: take_bit_eq_mask mask_eq_exp_minus_1)

lemma or64_of_small: "0 \<le> m \<Longrightarrow> m < 64 \<Longrightarrow> (m::int) OR 64 = m + 64"
  using set_bit_eq[of 6 m] by (simp add: set_bit_eq_or bit6_of_small)

lemma and63_plus64: "0 \<le> m \<Longrightarrow> m < 64 \<Longrightarrow> (m + 64 ::int) AND 63 = m"
proof -
  assume a: "0 \<le> m" "m < 64"
  have "(m + 64) AND 63 = take_bit 6 (m + 64)"
    by (simp add: take_bit_eq_mask mask_eq_exp_minus_1)
  also have "\<dots> = (m + 64) mod 64"
    by (simp add: take_bit_eq_mod)
  also have "\<dots> = m"
    using a by simp
  finally show ?thesis .
qed

lemma bit6_plus64: "0 \<le> m \<Longrightarrow> m < 64 \<Longrightarrow> bit (m + 64 ::int) 6"
proof -
  assume a: "0 \<le> m" "m < 64"
  then have "(m + 64) div 64 = 1" by simp
  then show ?thesis by (simp add: bit_iff_odd)
qed

text \<open>The value of one message: the chunk in bits 0 to 5, the sign in bit 6.\<close>

lemma cc_value:
  assumes "1 \<le> m" "m \<le> 63"
  shows "m OR push_bit 6 (if s < 0 then 1 else 0 :: int) = m + (if s < 0 then 64 else 0)"
    and "(m + (if s < 0 then 64 else 0 :: int)) AND 63 = m"
    and "bit (m + (if s < 0 then 64 else 0 :: int)) 6 \<longleftrightarrow> s < 0"
  using assms
  by (simp_all add: or64_of_small and63_of_small and63_plus64 bit6_plus64 bit6_of_small)

lemma send_midi_jog_cc_loop_done:
  "n \<le> 0 \<Longrightarrow> send_midi_jog_cc_loop shift n st = st"
  by (subst send_midi_jog_cc_loop.simps) simp

lemma send_midi_jog_cc_loop_round:
  "0 < n \<Longrightarrow> send_midi_jog_cc_loop shift n st =
     send_midi_jog_cc_loop shift (n - min 63 n)
       (st\<lparr>midi_out := midi_out st
          @ [Control_change MCU_JOG_CC (min 63 n OR push_bit 6 (if shift < 0 then 1 else 0))]\<rparr>)"
  by (subst send_midi_jog_cc_loop.simps) (simp add: Let_def min_def)

text \<open>The chunks \<open>ms\<close> the loop cuts a remaining magnitude \<open>n\<close> into.\<close>

lemma send_midi_jog_cc_loop_chunks:
  "0 \<le> n \<Longrightarrow> \<exists>ms. send_midi_jog_cc_loop shift n st =
        st\<lparr>midi_out := midi_out st
           @ map (\<lambda>m. Control_change MCU_JOG_CC (m OR push_bit 6 (if shift < 0 then 1 else 0))) ms\<rparr>
      \<and> int (length ms) = (n + 62) div 63
      \<and> (\<forall>m \<in> set ms. 1 \<le> m \<and> m \<le> 63)
      \<and> sum_list ms = n"
proof (induction "nat n" arbitrary: n st rule: less_induct)
  case less
  let ?val = "\<lambda>m. Control_change MCU_JOG_CC (m OR push_bit 6 (if shift < 0 then 1 else 0))"
  show ?case
  proof (cases "n = 0")
    case True
    then show ?thesis by (simp add: send_midi_jog_cc_loop_done)
  next
    case False
    with less.prems have pos: "0 < n" by simp
    let ?m = "min 63 n"
    let ?st = "st\<lparr>midi_out := midi_out st @ [?val ?m]\<rparr>"
    have "nat (n - ?m) < nat n" "0 \<le> n - ?m" using pos by auto
    from less.hyps[OF this, of ?st] obtain ms where
      ms: "send_midi_jog_cc_loop shift (n - ?m) ?st =
             ?st\<lparr>midi_out := midi_out ?st @ map ?val ms\<rparr>"
        "int (length ms) = (n - ?m + 62) div 63"
        "\<forall>m \<in> set ms. 1 \<le> m \<and> m \<le> 63"
        "sum_list ms = n - ?m"
      by blast
    have len: "(n - ?m + 62) div 63 + 1 = (n + 62) div 63"
      using pos by (auto simp: min_def)
    have "send_midi_jog_cc_loop shift n st = st\<lparr>midi_out := midi_out st @ map ?val (?m # ms)\<rparr>"
      by (simp add: send_midi_jog_cc_loop_round[OF pos] ms(1))
    moreover have "int (length (?m # ms)) = (n + 62) div 63"
      using ms(2) len by simp
    moreover have "\<forall>m \<in> set (?m # ms). 1 \<le> m \<and> m \<le> 63"
      using ms(3) pos by auto
    moreover have "sum_list (?m # ms) = n"
      using ms(4) by simp
    ultimately show ?thesis by blast
  qed
qed

lemma neg_div63: "- (- n div 63) = (n + 62) div (63::int)"
proof -
  define q r where "q = n div 63" and "r = n mod 63"
  have n: "n = 63 * q + r" and r: "0 \<le> r" "r < 63"
    by (simp_all add: q_def r_def)
  have a: "(n + 62) div 63 = q + (r + 62) div 63"
    unfolding n by (simp add: add.assoc)
  have b: "(r + 62) div 63 = (if r = 0 then 0 else 1)"
    using r by (auto simp: div_pos_geq)
  have c: "- n div 63 = (if r = 0 then - q else - q - 1)"
    using zdiv_zminus1_eq_if[of 63 n] by (simp add: q_def r_def)
  show ?thesis by (simp add: a b c)
qed

lemma ceiling_div63: "\<lceil>real_of_int n / 63\<rceil> = (n + 62) div 63"
  using ceiling_divide_eq_div[of n 63] by (simp add: neg_div63)

lemma send_midi_jog_cc_130:
  "send_midi_jog_cc 130 st =
     st\<lparr>midi_out := midi_out st
        @ [Control_change 0x3c 63, Control_change 0x3c 63, Control_change 0x3c 4]\<rparr>"
  by (simp add: send_midi_jog_cc_def send_midi_jog_cc_loop_round send_midi_jog_cc_loop_done
      MCU_JOG_CC_def)

text \<open>
  C6. For a signed step count \<open>s\<close>, \<^verbatim>\<open>send_midi_jog_cc\<close> sends \<open>\<lceil>\<bar>s\<bar> / 63\<rceil>\<close>
  control-change messages on control \<open>0x3c\<close> and nothing else. The value \<open>v\<close> of each has
  a magnitude between 1 and 63 in bits 0 to 5 (\<open>v AND 63\<close>) and bit 6 set exactly when
  \<open>s < 0\<close>, with no higher bit; the magnitudes add up to \<open>\<bar>s\<bar>\<close>. The step count 130
  gives three messages with the values 63, 63 and 4, bit 6 clear.
\<close>

theorem send_midi_jog_cc_chunks:
  "(\<exists>vs. send_midi_jog_cc s st = st\<lparr>midi_out := midi_out st @ map (Control_change 0x3c) vs\<rparr>
      \<and> int (length vs) = \<lceil>real_of_int \<bar>s\<bar> / 63\<rceil>
      \<and> (\<forall>v \<in> set vs. 1 \<le> v AND 63 \<and> v AND 63 \<le> 63 \<and> (bit v 6 \<longleftrightarrow> s < 0)
            \<and> v = (v AND 63) + (if s < 0 then 64 else 0))
      \<and> sum_list (map (\<lambda>v. v AND 63) vs) = \<bar>s\<bar>)
   \<and> send_midi_jog_cc 130 st =
       st\<lparr>midi_out := midi_out st
          @ [Control_change 0x3c 63, Control_change 0x3c 63, Control_change 0x3c 4]\<rparr>"
proof -
  let ?sg = "if s < 0 then 64 else 0 :: int"
  obtain ms where
    ms: "send_midi_jog_cc_loop s \<bar>s\<bar> st =
           st\<lparr>midi_out := midi_out st
              @ map (\<lambda>m. Control_change MCU_JOG_CC (m OR push_bit 6 (if s < 0 then 1 else 0))) ms\<rparr>"
      "int (length ms) = (\<bar>s\<bar> + 62) div 63"
      "\<forall>m \<in> set ms. 1 \<le> m \<and> m \<le> 63"
      "sum_list ms = \<bar>s\<bar>"
    using send_midi_jog_cc_loop_chunks[of "\<bar>s\<bar>" s st] by auto
  define vs where "vs = map (\<lambda>m. m + ?sg) ms"
  have same: "map (\<lambda>m. Control_change MCU_JOG_CC (m OR push_bit 6 (if s < 0 then 1 else 0))) ms
      = map (Control_change 0x3c) vs"
    using ms(3) by (simp add: vs_def cc_value(1) MCU_JOG_CC_def)
  have 1: "send_midi_jog_cc s st = st\<lparr>midi_out := midi_out st @ map (Control_change 0x3c) vs\<rparr>"
    by (simp add: send_midi_jog_cc_def ms(1) same)
  have 2: "int (length vs) = \<lceil>real_of_int \<bar>s\<bar> / 63\<rceil>"
    using ceiling_div63[of "\<bar>s\<bar>"] by (simp add: vs_def ms(2))
  have 3: "\<forall>v \<in> set vs. 1 \<le> v AND 63 \<and> v AND 63 \<le> 63 \<and> (bit v 6 \<longleftrightarrow> s < 0)
            \<and> v = (v AND 63) + ?sg"
  proof
    fix v assume "v \<in> set vs"
    then obtain m where m: "m \<in> set ms" "v = m + ?sg" by (auto simp: vs_def)
    with ms(3) have r: "1 \<le> m" "m \<le> 63" by auto
    show "1 \<le> v AND 63 \<and> v AND 63 \<le> 63 \<and> (bit v 6 \<longleftrightarrow> s < 0) \<and> v = (v AND 63) + ?sg"
      using r cc_value(2)[OF r, of s] cc_value(3)[OF r, of s] by (simp add: m(2))
  qed
  have "map (\<lambda>v. v AND 63) vs = ms"
    unfolding vs_def map_map o_def
    by (rule map_idI) (use ms(3) in \<open>simp add: cc_value(2)\<close>)
  then have 4: "sum_list (map (\<lambda>v. v AND 63) vs) = \<bar>s\<bar>"
    by (simp add: ms(4))
  from 1 2 3 4 show ?thesis
    by (intro conjI exI[of _ vs] send_midi_jog_cc_130)
qed

theorem send_midi_jog_cc_chunks_witness:
  "\<exists>vs. midi_out (send_midi_jog_cc (- 64) handler0) = map (Control_change 0x3c) vs
      \<and> length vs = 2
      \<and> (\<forall>v \<in> set vs. 1 \<le> v AND 63 \<and> v AND 63 \<le> 63 \<and> bit v 6 \<and> v = (v AND 63) + 64)
      \<and> sum_list (map (\<lambda>v. v AND 63) vs) = 64"
proof -
  from send_midi_jog_cc_chunks[of "- 64" handler0] obtain vs where
    vs: "send_midi_jog_cc (- 64) handler0
          = handler0\<lparr>midi_out := midi_out handler0 @ map (Control_change 0x3c) vs\<rparr>"
      "int (length vs) = \<lceil>real_of_int \<bar>- 64\<bar> / 63\<rceil>"
      "\<forall>v \<in> set vs. 1 \<le> v AND 63 \<and> v AND 63 \<le> 63 \<and> (bit v 6 \<longleftrightarrow> (- 64 :: int) < 0)
            \<and> v = (v AND 63) + (if (- 64 :: int) < 0 then 64 else 0)"
      "sum_list (map (\<lambda>v. v AND 63) vs) = \<bar>- 64\<bar>"
    by blast
  have "midi_out (send_midi_jog_cc (- 64) handler0) = map (Control_change 0x3c) vs"
    by (subst vs(1)) (simp add: handler0_def)
  moreover have "length vs = 2" using vs(2) by simp
  ultimately show ?thesis using vs(3,4) by (intro exI[of _ vs]) simp
qed

subsection \<open>The nudge burst\<close>

lemma fold_send_midi_note:
  "fold (\<lambda>i. send_midi_note msg) [0..<n] st =
     st\<lparr>midi_out := midi_out st @ replicate n (Note_on msg 127)\<rparr>"
proof (induction n)
  case 0
  show ?case by simp
next
  case (Suc n)
  then show ?case
    by (simp add: send_midi_note_def replicate_append_same)
qed

text \<open>
  C7. For a signed step count \<open>s\<close>, \<^verbatim>\<open>send_midi_nudge_msgs\<close> sends \<open>ramped \<bar>s\<bar>\<close> button
  messages and nothing else, where \<open>ramped r = 5 + (r - 5) * 5\<close> for \<open>r > 5\<close> and \<open>r\<close>
  otherwise, each with the code chosen by the sign of \<open>s\<close> and the NUDGE modifier:
  \<open>MCU_USER_A\<close> or \<open>MCU_USER_B\<close> (negative or positive) with NUDGE active, \<open>MCU_F1\<close> or
  \<open>MCU_F2\<close> without. Magnitude 8 gives 20 messages, magnitude 3 gives 3.
\<close>

theorem send_midi_nudge_msgs_burst:
  "send_midi_nudge_msgs s st =
     st\<lparr>midi_out := midi_out st
        @ replicate (nat (ramped \<bar>s\<bar>)) (Note_on (nudge_code (NUDGE \<in> modifiers st) s) 127)\<rparr>
   \<and> ramped \<bar>s\<bar> = (if \<bar>s\<bar> > 5 then 5 + (\<bar>s\<bar> - 5) * 5 else \<bar>s\<bar>)
   \<and> nudge_code True s = (if s < 0 then 0x66 else 0x67)
   \<and> nudge_code False s = (if s < 0 then 0x36 else 0x37)
   \<and> length (midi_out (send_midi_nudge_msgs 8 st)) = length (midi_out st) + 20
   \<and> length (midi_out (send_midi_nudge_msgs (- 8) st)) = length (midi_out st) + 20
   \<and> length (midi_out (send_midi_nudge_msgs 3 st)) = length (midi_out st) + 3
   \<and> length (midi_out (send_midi_nudge_msgs (- 3) st)) = length (midi_out st) + 3"
proof -
  have burst: "send_midi_nudge_msgs s st =
     st\<lparr>midi_out := midi_out st
        @ replicate (nat (ramped \<bar>s\<bar>)) (Note_on (nudge_code (NUDGE \<in> modifiers st) s) 127)\<rparr>"
    for s
    by (simp add: send_midi_nudge_msgs_def Let_def fold_send_midi_note ramped_def
        nudge_code_def RAMP_THRESHOLD_def RAMP_FACTOR_def)
  show ?thesis
    by (simp add: burst) (simp add: ramped_def nudge_code_def MCU_defs)
qed

theorem send_midi_nudge_msgs_burst_witness:
  "midi_out (send_midi_nudge_msgs (- 7) handler0) = replicate 15 (Note_on 0x36 127)"
  using send_midi_nudge_msgs_burst[of "- 7" handler0]
  by (simp add: handler0_def ramped_def nudge_code_def MCU_defs)

subsection \<open>The play status and the LEDs\<close>

lemma led_flags_only_bit: "led_flags_only L m \<Longrightarrow> bit m n \<Longrightarrow> bit (all_bits L) n"
proof -
  assume a: "led_flags_only L m" and b: "bit m n"
  from a have "bit (m AND NOT (all_bits L)) n = bit (0::int) n"
    by (simp add: led_flags_only_def)
  with b show ?thesis by (simp add: bit_and_iff bit_not_iff)
qed

lemma receive_play_leds_eq:
  "leds (receive L (In_msg ''note_on'' MCU_PLAY v) st)
     = (if v > 0 then (leds st AND flag_invert L (led_set L)) OR led_set L
        else leds st AND flag_invert L (led_set L))"
  by (simp add: receive_def Let_def MCU_defs)

text \<open>
  C9. Let the prior mask be a mask of LED flags, as the camera group is. A \<^verbatim>\<open>note_on\<close>
  for \<open>MCU_PLAY\<close> then leaves every bit of the camera group (the bits of \<^verbatim>\<open>CAM1\<close> to
  \<^verbatim>\<open>CAM9\<close>) set if the velocity is above 0 and clear if it is not, every other bit as it
  was, and it passes the whole new mask to \<^verbatim>\<open>set_leds\<close> within the same call.
\<close>

theorem receive_play_leds:
  assumes "led_flags_only L (led_set L)" and "led_flags_only L (leds st)"
  shows "bit (leds (receive L (In_msg ''note_on'' MCU_PLAY v) st)) n
       = (if bit (led_set L) n then v > 0 else bit (leds st) n)
     \<and> se (receive L (In_msg ''note_on'' MCU_PLAY v) st)
       = se st @ [Set_leds (leds (receive L (In_msg ''note_on'' MCU_PLAY v) st))]
     \<and> play_state (receive L (In_msg ''note_on'' MCU_PLAY v) st) = (v > 0)
     \<and> (bit (led_set L) n \<longleftrightarrow>
          bit (CAM1 L) n \<or> bit (CAM2 L) n \<or> bit (CAM3 L) n \<or> bit (CAM4 L) n
          \<or> bit (CAM5 L) n \<or> bit (CAM6 L) n \<or> bit (CAM7 L) n \<or> bit (CAM8 L) n
          \<or> bit (CAM9 L) n)"
proof -
  have r: "bit (leds st) n \<Longrightarrow> bit (all_bits L) n"
    by (rule led_flags_only_bit[OF assms(2)])
  have 1: "bit (leds (receive L (In_msg ''note_on'' MCU_PLAY v) st)) n
       = (if bit (led_set L) n then v > 0 else bit (leds st) n)"
    using r by (auto simp: receive_play_leds_eq flag_invert_def bit_and_iff bit_or_iff
        bit_not_iff)
  have 2: "se (receive L (In_msg ''note_on'' MCU_PLAY v) st)
       = se st @ [Set_leds (leds (receive L (In_msg ''note_on'' MCU_PLAY v) st))]"
    by (simp add: receive_def Let_def MCU_defs)
  have 3: "play_state (receive L (In_msg ''note_on'' MCU_PLAY v) st) = (v > 0)"
    by (simp add: receive_def Let_def MCU_defs)
  have 4: "bit (led_set L) n \<longleftrightarrow>
          bit (CAM1 L) n \<or> bit (CAM2 L) n \<or> bit (CAM3 L) n \<or> bit (CAM4 L) n
          \<or> bit (CAM5 L) n \<or> bit (CAM6 L) n \<or> bit (CAM7 L) n \<or> bit (CAM8 L) n
          \<or> bit (CAM9 L) n"
    by (simp add: led_set_def bit_or_iff)
  from 1 2 3 4 show ?thesis by (intro conjI)
qed

lemma led_set_example_leds: "led_set example_leds = 122304"
  by (simp add: led_set_def example_leds_def)

theorem receive_play_leds_witness:
  "led_flags_only example_leds (led_set example_leds)
   \<and> led_flags_only example_leds (leds (handler0\<lparr>leds := 66\<rparr>))
   \<and> \<not> bit (leds (receive example_leds (In_msg ''note_on'' MCU_PLAY 0) (handler0\<lparr>leds := 66\<rparr>))) 6
   \<and> bit (leds (receive example_leds (In_msg ''note_on'' MCU_PLAY 0) (handler0\<lparr>leds := 66\<rparr>))) 1
   \<and> bit (leds (receive example_leds (In_msg ''note_on'' MCU_PLAY 127) (handler0\<lparr>leds := 66\<rparr>))) 7"
proof -
  have a: "led_flags_only example_leds (led_set example_leds)"
    by (simp add: led_flags_only_def led_set_example_leds) (simp add: example_leds_def)
  have b: "led_flags_only example_leds (leds (handler0\<lparr>leds := 66\<rparr>))"
    by (simp add: led_flags_only_def example_leds_def)
  show ?thesis
    using receive_play_leds[OF a b, of 0 6] receive_play_leds[OF a b, of 0 1]
      receive_play_leds[OF a b, of 127 7] a b
    by (simp add: led_set_example_leds)
qed

text \<open>
  A mask with a bit outside the flags loses that bit: from the mask \<open>2 ^ 20 + 2\<close> a
  \<^verbatim>\<open>note_on\<close> for \<open>MCU_PLAY\<close> with velocity 0 leaves 2.
\<close>

lemma receive_clears_above_flags:
  "leds (receive example_leds (In_msg ''note_on'' MCU_PLAY 0) (handler0\<lparr>leds := 1048578\<rparr>)) = 2"
  by (simp add: receive_play_leds_eq flag_invert_def led_set_example_leds)
     (simp add: example_leds_def)

subsection \<open>The jog translation\<close>

lemma JOG_SPEED_DIV_FACTOR_Some:
  "JOG_SPEED_DIV_FACTOR m = Some f \<longleftrightarrow> (m = SHTL \<and> f = 20) \<or> (m = JOG \<and> f = 15) \<or> (m = SCRL \<and> f = 1)"
  by (auto simp: JOG_SPEED_DIV_FACTOR_def split: if_splits)

lemma send_midi_nudge_msgs_frame:
  "send_midi_nudge_msgs v st = st\<lparr>midi_out := midi_out (send_midi_nudge_msgs v st)\<rparr>"
  by (simp add: send_midi_nudge_msgs_def Let_def fold_send_midi_note)

lemma send_midi_jog_cc_frame:
  "send_midi_jog_cc v st = st\<lparr>midi_out := midi_out (send_midi_jog_cc v st)\<rparr>"
proof -
  obtain ms where "send_midi_jog_cc_loop v \<bar>v\<bar> st =
      st\<lparr>midi_out := midi_out st
         @ map (\<lambda>m. Control_change MCU_JOG_CC (m OR push_bit 6 (if v < 0 then 1 else 0))) ms\<rparr>"
    using send_midi_jog_cc_loop_chunks[of "\<bar>v\<bar>" v st] by auto
  then show ?thesis by (simp add: send_midi_jog_cc_def)
qed

lemma jog_unfold:
  assumes "JOG_SPEED_DIV_FACTOR (jog_mode st) = Some f"
  shows "jog mode d st =
     (if (jog_unsent st + d div 360) div f = 0
      then Inr (st\<lparr>jog_unsent := jog_unsent st + d div 360\<rparr>)
      else Inr (encode_steps ((jog_unsent st + d div 360) div f)
                  (st\<lparr>jog_unsent := jog_unsent st + d div 360
                                      - (jog_unsent st + d div 360) div f * f,
                      history := history st
                        @ [Steps (jog_mode st) ((jog_unsent st + d div 360) div f)]\<rparr>)))"
  using assms by (simp add: jog_def Let_def encode_steps_def)

lemma encode_steps_frame:
  "encode_steps v st = st\<lparr>midi_out := midi_out (encode_steps v st)\<rparr>"
  using send_midi_nudge_msgs_frame[of v st] send_midi_jog_cc_frame[of v st]
  by (simp add: encode_steps_def)

text \<open>A call of \<open>jog\<close> in one equation: the new remainder is the sum modulo the factor.\<close>

lemma jog_effect:
  assumes F: "JOG_SPEED_DIV_FACTOR (jog_mode st) = Some f"
  shows "\<exists>out. jog mode d st =
     Inr (st\<lparr>jog_unsent := (jog_unsent st + d div 360) mod f,
             history := history st
               @ (if (jog_unsent st + d div 360) div f = 0 then []
                  else [Steps (jog_mode st) ((jog_unsent st + d div 360) div f)]),
             midi_out := out\<rparr>)"
proof -
  let ?t = "jog_unsent st + d div 360"
  have m: "?t - ?t div f * f = ?t mod f"
    by (simp add: minus_div_mult_eq_mod)
  show ?thesis
  proof (cases "?t div f = 0")
    case True
    then have "?t mod f = ?t" using m by simp
    then have "jog mode d st =
        Inr (st\<lparr>jog_unsent := ?t mod f, history := history st @ [], midi_out := midi_out st\<rparr>)"
      using True by (simp add: jog_unfold[OF F])
    then show ?thesis using True by (intro exI[of _ "midi_out st"]) simp
  next
    case False
    let ?st = "st\<lparr>jog_unsent := ?t mod f,
                  history := history st @ [Steps (jog_mode st) (?t div f)]\<rparr>"
    have "jog mode d st = Inr (encode_steps (?t div f) ?st)"
      using False by (simp add: jog_unfold[OF F] m)
    also have "encode_steps (?t div f) ?st = ?st\<lparr>midi_out := midi_out (encode_steps (?t div f) ?st)\<rparr>"
      by (rule encode_steps_frame)
    finally show ?thesis
      using False by (intro exI[of _ "midi_out (encode_steps (?t div f) ?st)"]) simp
  qed
qed

lemma floor_div_int: "\<lfloor>real_of_int a / real_of_int b\<rfloor> = a div b"
  by (rule floor_divide_of_int_eq)

lemma floor_div_360: "\<lfloor>real_of_int d / 360\<rfloor> = d div 360"
  using floor_div_int[of d 360] by simp

text \<open>
  C1, as the code has it. In every jog mode (a key of \<open>JOG_SPEED_DIV_FACTOR\<close>, with factor
  \<open>f\<close>), a call of \<open>jog\<close> with the raw delta \<open>d\<close> takes the native units as the floor of
  \<open>d / 360\<close>, adds them to \<open>jog_unsent\<close>, and takes the steps as the floor of that sum over
  \<open>f\<close>: both divisions round towards minus infinity. If the steps are not zero,
  \<open>jog_unsent\<close> becomes the sum minus the steps times \<open>f\<close> and the signed steps go to the
  encoder of the mode; if they are zero nothing is sent and \<open>jog_unsent\<close> is the sum.
\<close>

theorem jog_translation_floor:
  assumes "JOG_SPEED_DIV_FACTOR (jog_mode st) = Some f"
  shows "jog mode d st =
     (let native_units = \<lfloor>real_of_int d / 360\<rfloor>;
          total = jog_unsent st + native_units;
          steps = \<lfloor>real_of_int total / real_of_int f\<rfloor>
      in if steps = 0 then Inr (st\<lparr>jog_unsent := total\<rparr>)
         else Inr (encode_steps steps
                     (st\<lparr>jog_unsent := total - steps * f,
                         history := history st @ [Steps (jog_mode st) steps]\<rparr>)))"
  unfolding Let_def floor_div_360 floor_div_int
  by (rule jog_unfold[OF assms])

theorem jog_translation_floor_witness:
  "JOG_SPEED_DIV_FACTOR (jog_mode handler0) = Some 15
   \<and> jog RELATIVE_2 5400 handler0 =
       Inr (handler0\<lparr>jog_unsent := 0, history := [Steps JOG 1],
                     midi_out := [Control_change 0x3c 1]\<rparr>)"
proof -
  have F: "JOG_SPEED_DIV_FACTOR (jog_mode handler0) = Some 15"
    by (simp add: handler0_def JOG_SPEED_DIV_FACTOR_def)
  have "encode_steps 1 (handler0\<lparr>jog_unsent := 0, history := [Steps JOG 1]\<rparr>)
      = handler0\<lparr>jog_unsent := 0, history := [Steps JOG 1],
                 midi_out := [Control_change 0x3c 1]\<rparr>"
    by (simp add: encode_steps_def handler0_def send_midi_jog_cc_def
        send_midi_jog_cc_loop_round send_midi_jog_cc_loop_done MCU_JOG_CC_def)
  then show ?thesis
    using jog_translation_floor[OF F, of RELATIVE_2 5400] F
    by (simp add: Let_def handler0_def)
qed

text \<open>
  The specification writes truncation towards zero; read so, the sentence fails on a small turn
  backwards. From the state after construction (mode \<open>JOG\<close>, factor 15, remainder 0) the
  raw delta \<open>-360\<close> makes the code send the step \<open>-1\<close> and keep the remainder 14, where
  truncation sends nothing and keeps \<open>-1\<close>.
\<close>

theorem jog_truncation_counterexample:
  "jog RELATIVE_2 (- 360) handler0 =
     Inr (handler0\<lparr>jog_unsent := 14, history := [Steps JOG (- 1)],
                   midi_out := [Control_change 0x3c 65]\<rparr>)
   \<and> jog_claimed RELATIVE_2 (- 360) handler0 = Inr (handler0\<lparr>jog_unsent := - 1\<rparr>)
   \<and> jog RELATIVE_2 (- 360) handler0 \<noteq> jog_claimed RELATIVE_2 (- 360) handler0"
proof -
  have a: "jog RELATIVE_2 (- 360) handler0 =
     Inr (handler0\<lparr>jog_unsent := 14, history := [Steps JOG (- 1)],
                   midi_out := [Control_change 0x3c 65]\<rparr>)"
    by (simp add: jog_def Let_def handler0_def JOG_SPEED_DIV_FACTOR_def send_midi_jog_cc_def
        send_midi_jog_cc_loop_round send_midi_jog_cc_loop_done MCU_JOG_CC_def)
  have b: "jog_claimed RELATIVE_2 (- 360) handler0 = Inr (handler0\<lparr>jog_unsent := - 1\<rparr>)"
    by (simp add: jog_claimed_def Let_def handler0_def JOG_SPEED_DIV_FACTOR_def tdiv_def)
  have c: "jog RELATIVE_2 (- 360) handler0 \<noteq> jog_claimed RELATIVE_2 (- 360) handler0"
  proof
    assume "jog RELATIVE_2 (- 360) handler0 = jog_claimed RELATIVE_2 (- 360) handler0"
    then have "handler0\<lparr>jog_unsent := 14, history := [Steps JOG (- 1)],
                   midi_out := [Control_change 0x3c 65]\<rparr> = handler0\<lparr>jog_unsent := - 1\<rparr>"
      unfolding a b by (rule Inr_inject)
    then have "jog_unsent (handler0\<lparr>jog_unsent := 14, history := [Steps JOG (- 1)],
                   midi_out := [Control_change 0x3c 65]\<rparr>) = jog_unsent (handler0\<lparr>jog_unsent := - 1\<rparr>)"
      by (rule arg_cong)
    then show False by simp
  qed
  from a b c show ?thesis by (intro conjI)
qed

text \<open>Where no negative number is divided the two readings agree.\<close>

lemma tdiv_nonneg: "0 \<le> a \<Longrightarrow> 0 < b \<Longrightarrow> tdiv a b = a div b"
  by (cases "a = 0") (simp_all add: tdiv_def)

lemma jog_claimed_nonneg:
  assumes "0 \<le> d" "0 \<le> jog_unsent st"
  shows "jog_claimed mode d st = jog mode d st"
proof (cases "JOG_SPEED_DIV_FACTOR (jog_mode st)")
  case None
  then show ?thesis by (simp add: jog_claimed_def jog_def Let_def)
next
  case (Some f)
  then have f: "0 < f" by (auto simp: JOG_SPEED_DIV_FACTOR_Some)
  have d: "tdiv d 360 = d div 360" using assms(1) by (simp add: tdiv_nonneg)
  have "0 \<le> d div 360" using assms(1) by (simp add: pos_imp_zdiv_nonneg_iff)
  then have t: "tdiv (jog_unsent st + d div 360) f = (jog_unsent st + d div 360) div f"
    using assms(2) f by (simp add: tdiv_nonneg)
  show ?thesis
    by (simp add: jog_claimed_def Let_def d t Some jog_unfold[OF Some])
qed

subsection \<open>What each method leaves alone\<close>

lemma zoom_handle_keys_fields [simp]:
  "keys (zoom_handle_keys st) = keys st"
  "modifiers (zoom_handle_keys st) = modifiers st"
  "jog_mode (zoom_handle_keys st) = jog_mode st"
  "jog_unsent (zoom_handle_keys st) = jog_unsent st"
  "history (zoom_handle_keys st) = history st"
  by (simp_all add: zoom_handle_keys_def Let_def set_zoom_mode_def set_zoom_timer_def
      send_midi_note_def)

lemma zoom_handle_keys_timer:
  "zoom_timer_on (zoom_handle_keys st)
     = (zoom_timer_on st \<or> list_ex (\<lambda>k. k \<in> keys st) ZOOM_KEYS)"
  "timers (zoom_handle_keys st)
     = (if list_ex (\<lambda>k. k \<in> keys st) ZOOM_KEYS \<and> \<not> zoom_timer_on st
        then Suc (timers st) else timers st)"
  by (simp_all add: zoom_handle_keys_def Let_def set_zoom_mode_def set_zoom_timer_def
      send_midi_note_def)

lemma zoom_handle_keys_idle:
  "\<not> list_ex (\<lambda>k. k \<in> keys st) ZOOM_KEYS \<Longrightarrow> zoom_handle_keys st = st"
  by (simp add: zoom_handle_keys_def Let_def ZOOM_KEYS_def)

lemma key_pressed_fields [simp]:
  "keys (key_pressed k st) = keys st"
  "jog_unsent (key_pressed k st) = jog_unsent st"
  "history (key_pressed k st) = history st @ [Pressed k]"
  "modifiers (key_pressed k st)
     = (if k = ROLL then insert NUDGE (modifiers st) else modifiers st)"
  "jog_mode (key_pressed k st) = (if k \<in> {SHTL, JOG, SCRL} then k else jog_mode st)"
  by (cases k; simp add: key_pressed_def Let_def set_jog_mode_for_key_def JOG_table_def
      modifier_pressed_def MODIFIER_KEY_MAP_def send_midi_note_def ZOOM_KEYS_def)+

lemma key_pressed_timer:
  "timers st = (if zoom_timer_on st then 1 else 0)
   \<Longrightarrow> timers (key_pressed k st) = (if zoom_timer_on (key_pressed k st) then 1 else 0)"
  by (cases k; simp add: key_pressed_def Let_def set_jog_mode_for_key_def JOG_table_def
      modifier_pressed_def MODIFIER_KEY_MAP_def send_midi_note_def ZOOM_KEYS_def
      zoom_handle_keys_timer)

subsection \<open>Key updates\<close>

lemma key_released_eq:
  "key_released k st =
     (if k = ROLL
      then (if NUDGE \<in> modifiers st
            then Inr (st\<lparr>modifiers := modifiers st - {NUDGE},
                         history := history st @ [Released k]\<rparr>)
            else Inl KeyError)
      else Inr (st\<lparr>history := history st @ [Released k]\<rparr>))"
  by (simp add: key_released_def modifier_released_def MODIFIER_KEY_MAP_def)

lemma for_released_paired:
  "distinct rs \<Longrightarrow> (ROLL \<in> set rs \<longrightarrow> NUDGE \<in> modifiers st) \<Longrightarrow>
   for_released rs st =
     Inr (st\<lparr>modifiers := (if ROLL \<in> set rs then modifiers st - {NUDGE} else modifiers st),
             history := history st @ map Released rs\<rparr>)"
proof (induction rs arbitrary: st)
  case Nil
  show ?case by simp
next
  case (Cons k rs)
  show ?case
  proof (cases "k = ROLL")
    case True
    with Cons.prems have n: "NUDGE \<in> modifiers st" and r: "ROLL \<notin> set rs" "distinct rs"
      by auto
    let ?st = "st\<lparr>modifiers := modifiers st - {NUDGE}, history := history st @ [Released k]\<rparr>"
    have "for_released (k # rs) st = for_released rs ?st"
      using True n by (simp add: key_released_eq)
    also have "\<dots> = Inr (?st\<lparr>modifiers := (if ROLL \<in> set rs then modifiers ?st - {NUDGE} else modifiers ?st),
             history := history ?st @ map Released rs\<rparr>)"
      by (rule Cons.IH) (use r in simp_all)
    finally show ?thesis using True r by simp
  next
    case False
    let ?st = "st\<lparr>history := history st @ [Released k]\<rparr>"
    have "for_released (k # rs) st = for_released rs ?st"
      using False by (simp add: key_released_eq)
    also have "\<dots> = Inr (?st\<lparr>modifiers := (if ROLL \<in> set rs then modifiers ?st - {NUDGE} else modifiers ?st),
             history := history ?st @ map Released rs\<rparr>)"
      by (rule Cons.IH) (use Cons.prems False in simp_all)
    finally show ?thesis using False by simp
  qed
qed

lemma for_pressed_fields [simp]:
  "keys (for_pressed ps st) = keys st"
  "jog_unsent (for_pressed ps st) = jog_unsent st"
  "history (for_pressed ps st) = history st @ map Pressed ps"
  "modifiers (for_pressed ps st)
     = (if ROLL \<in> set ps then insert NUDGE (modifiers st) else modifiers st)"
  by (induction ps arbitrary: st; simp; fail)+

lemma for_pressed_jog_mode:
  "jog_mode st \<in> {SHTL, JOG, SCRL} \<Longrightarrow> jog_mode (for_pressed ps st) \<in> {SHTL, JOG, SCRL}"
  by (induction ps arbitrary: st) auto

lemma for_pressed_timer:
  "timers st = (if zoom_timer_on st then 1 else 0)
   \<Longrightarrow> timers (for_pressed ps st) = (if zoom_timer_on (for_pressed ps st) then 1 else 0)"
proof (induction ps arbitrary: st)
  case Nil
  then show ?case by simp
next
  case (Cons k ps)
  show ?case
    using Cons.IH[OF key_pressed_timer[OF Cons.prems, of k]] by simp
qed

lemma key_effect:
  assumes "visits iter (keys st - set ks)" "modifiers_paired st"
  shows "key iter ks st =
     Inr (for_pressed (iter (set ks - keys st))
            (st\<lparr>keys := set ks,
                modifiers := (if ROLL \<in> keys st - set ks then modifiers st - {NUDGE}
                              else modifiers st),
                history := history st @ map Released (iter (keys st - set ks))\<rparr>))"
proof -
  let ?rs = "iter (keys st - set ks)"
  have rs: "set ?rs = keys st - set ks" "distinct ?rs"
    using assms(1) by (simp_all add: visits_def)
  have "ROLL \<in> set ?rs \<longrightarrow> NUDGE \<in> modifiers (st\<lparr>keys := set ks\<rparr>)"
    using assms(2) rs(1) by (simp add: modifiers_paired_def)
  from for_released_paired[OF rs(2) this]
  show ?thesis by (simp add: key_def Let_def rs(1))
qed

text \<open>
  C8. One call of \<open>key\<close> with the snapshot \<open>ks\<close>, in a state where the held keys are \<open>P\<close>
  and the modifiers are paired: it returns, the stored set is then \<open>set ks\<close>, and the
  calls it made are \<^verbatim>\<open>key_released\<close> for each key of \<open>P\<close> that is not in \<open>ks\<close>, once each,
  followed by \<^verbatim>\<open>key_pressed\<close> for each key of \<open>ks\<close> that is not in \<open>P\<close>, once each. A key in
  both or in neither is in neither list.
\<close>

theorem key_edges:
  assumes "visits iter (keys st - set ks)" "visits iter (set ks - keys st)"
    and "modifiers_paired st"
  shows "\<exists>st' rs ps. key iter ks st = Inr st' \<and> keys st' = set ks
     \<and> history st' = history st @ map Released rs @ map Pressed ps
     \<and> set rs = {k. k \<in> keys st \<and> k \<notin> set ks} \<and> distinct rs
     \<and> set ps = {k. k \<in> set ks \<and> k \<notin> keys st} \<and> distinct ps"
proof -
  let ?rs = "iter (keys st - set ks)" and ?ps = "iter (set ks - keys st)"
  have "set ?rs = {k. k \<in> keys st \<and> k \<notin> set ks}" "distinct ?rs"
    "set ?ps = {k. k \<in> set ks \<and> k \<notin> keys st}" "distinct ?ps"
    using assms(1,2) by (auto simp: visits_def)
  moreover let ?st = "st\<lparr>keys := set ks,
                modifiers := (if ROLL \<in> keys st - set ks then modifiers st - {NUDGE}
                              else modifiers st),
                history := history st @ map Released ?rs\<rparr>"
  have "key iter ks st = Inr (for_pressed ?ps ?st)"
    by (rule key_effect[OF assms(1,3)])
  moreover have "keys (for_pressed ?ps ?st) = set ks"
    by simp
  moreover have "history (for_pressed ?ps ?st) = history st @ map Released ?rs @ map Pressed ?ps"
    by simp
  ultimately show ?thesis by blast
qed

lemma key_inv:
  assumes "visits iter (keys st - set ks)" "visits iter (set ks - keys st)"
    and "handler_inv st"
  shows "\<exists>st'. key iter ks st = Inr st' \<and> handler_inv st'
      \<and> jog_unsent st' = jog_unsent st
      \<and> history st' = history st @ map Released (iter (keys st - set ks))
                         @ map Pressed (iter (set ks - keys st))"
proof -
  let ?rs = "iter (keys st - set ks)" and ?ps = "iter (set ks - keys st)"
  let ?st = "st\<lparr>keys := set ks,
                modifiers := (if ROLL \<in> keys st - set ks then modifiers st - {NUDGE}
                              else modifiers st),
                history := history st @ map Released ?rs\<rparr>"
  have p: "modifiers_paired st" and j: "jog_mode st \<in> {SHTL, JOG, SCRL}"
    and t: "timers st = (if zoom_timer_on st then 1 else 0)"
    using assms(3) by (simp_all add: handler_inv_def)
  have k: "key iter ks st = Inr (for_pressed ?ps ?st)"
    by (rule key_effect[OF assms(1) p])
  have ps: "set ?ps = set ks - keys st"
    using assms(2) by (simp add: visits_def)
  have 1: "jog_mode (for_pressed ?ps ?st) \<in> {SHTL, JOG, SCRL}"
    by (rule for_pressed_jog_mode) (use j in simp)
  have 2: "timers (for_pressed ?ps ?st) = (if zoom_timer_on (for_pressed ?ps ?st) then 1 else 0)"
    by (rule for_pressed_timer) (use t in simp)
  have 3: "modifiers_paired (for_pressed ?ps ?st)"
    using p by (auto simp: modifiers_paired_def ps)
  have "handler_inv (for_pressed ?ps ?st)"
    using 1 2 3 by (simp add: handler_inv_def)
  then show ?thesis by (simp add: k)
qed

subsection \<open>Runs\<close>

lemma receive_fields [simp]:
  "keys (receive L msg st) = keys st"
  "modifiers (receive L msg st) = modifiers st"
  "jog_mode (receive L msg st) = jog_mode st"
  "jog_unsent (receive L msg st) = jog_unsent st"
  "history (receive L msg st) = history st"
  "timers (receive L msg st) = timers st"
  "zoom_timer_on (receive L msg st) = zoom_timer_on st"
  by (simp_all add: receive_def Let_def)

lemma timer_fire_fields [simp]:
  "keys (timer_fire st) = keys st"
  "modifiers (timer_fire st) = modifiers st"
  "jog_mode (timer_fire st) = jog_mode st"
  "jog_unsent (timer_fire st) = jog_unsent st"
  "history (timer_fire st) = history st"
  by (simp_all add: timer_fire_def zoom_repeat_def)

lemma timer_fire_timer:
  "timers st = 1 \<Longrightarrow>
   timers (timer_fire st) = (if zoom_timer_on (timer_fire st) then 1 else 0)"
  by (simp add: timer_fire_def zoom_repeat_def zoom_handle_keys_timer)

lemma sent_total_append [simp]:
  "sent_total (xs @ ys) = sent_total xs + sent_total ys"
  by (simp add: sent_total_def)

lemma sent_total_edges [simp]:
  "sent_total (map Released rs) = 0" "sent_total (map Pressed ps) = 0"
  by (simp_all add: sent_total_def o_def)

lemma factor_of_mode:
  "JOG_SPEED_DIV_FACTOR m = Some f \<Longrightarrow> factor_of m = f"
  by (simp add: factor_of_def)

lemma jog_mode_factor:
  "jog_mode st \<in> {SHTL, JOG, SCRL} \<Longrightarrow>
   \<exists>f. JOG_SPEED_DIV_FACTOR (jog_mode st) = Some f \<and> 0 < f"
  by (auto simp: JOG_SPEED_DIV_FACTOR_def)

lemma jog_inv:
  assumes "handler_inv st"
  shows "\<exists>st'. jog mode d st = Inr st' \<and> handler_inv st'
      \<and> jog_mode st' = jog_mode st
      \<and> 0 \<le> jog_unsent st' \<and> jog_unsent st' < factor_of (jog_mode st)
      \<and> sent_total (history st') + jog_unsent st'
          = sent_total (history st) + jog_unsent st + d div 360"
proof -
  from assms have "jog_mode st \<in> {SHTL, JOG, SCRL}" by (simp add: handler_inv_def)
  from jog_mode_factor[OF this] obtain f where
    F: "JOG_SPEED_DIV_FACTOR (jog_mode st) = Some f" and f: "0 < f" by blast
  let ?t = "jog_unsent st + d div 360"
  let ?h = "history st @ (if ?t div f = 0 then [] else [Steps (jog_mode st) (?t div f)])"
  from jog_effect[OF F, of mode d] obtain out where
    j: "jog mode d st = Inr (st\<lparr>jog_unsent := ?t mod f, history := ?h, midi_out := out\<rparr>)"
    by blast
  have "sent_total ?h = sent_total (history st) + ?t div f * f"
    by (simp add: sent_total_def factor_of_mode[OF F])
  then have "sent_total ?h + ?t mod f = sent_total (history st) + ?t"
    by (simp add: div_mult_mod_eq)
  moreover have "handler_inv (st\<lparr>jog_unsent := ?t mod f, history := ?h, midi_out := out\<rparr>)"
    using assms by (simp add: handler_inv_def modifiers_paired_def)
  ultimately show ?thesis
    using f by (simp add: j factor_of_mode[OF F])
qed

lemma step_inv:
  assumes "set_iteration iter" "handler_inv st"
  shows "\<exists>st'. step iter L ev st = Inr st' \<and> handler_inv st'
      \<and> sent_total (history st') + jog_unsent st'
          = sent_total (history st) + jog_unsent st + event_units ev"
proof (cases ev)
  case (Ev_key ks)
  have fin: "finite (keys st)" using assms(2) by (simp add: handler_inv_def)
  then have v: "visits iter (keys st - set ks)" "visits iter (set ks - keys st)"
    using assms(1) by (simp_all add: set_iteration_def)
  from key_inv[OF v assms(2)] show ?thesis
    using Ev_key by auto
next
  case (Ev_jog mode d)
  from jog_inv[OF assms(2), of mode d] show ?thesis
    using Ev_jog by auto
next
  case (Ev_receive msg)
  have "handler_inv (receive L msg st)"
    using assms(2) by (simp add: handler_inv_def modifiers_paired_def)
  then show ?thesis using Ev_receive by simp
next
  case Ev_timer
  show ?thesis
  proof (cases "timers st = 0")
    case True
    then show ?thesis using Ev_timer assms(2) by simp
  next
    case False
    with assms(2) have "timers st = 1"
      by (simp add: handler_inv_def split: if_splits)
    from timer_fire_timer[OF this] assms(2) have "handler_inv (timer_fire st)"
      by (simp add: handler_inv_def modifiers_paired_def)
    then show ?thesis using Ev_timer False by simp
  qed
qed

lemma run_inv:
  assumes "set_iteration iter" "handler_inv st"
  shows "\<exists>st'. run iter L evs st = Inr st' \<and> handler_inv st'
      \<and> sent_total (history st') + jog_unsent st'
          = sent_total (history st) + jog_unsent st + native_total evs"
  using assms(2)
proof (induction evs arbitrary: st)
  case Nil
  then show ?case by (simp add: native_total_def)
next
  case (Cons ev evs)
  from step_inv[OF assms(1) Cons.prems, of L ev] obtain st1 where
    s: "step iter L ev st = Inr st1" "handler_inv st1"
       "sent_total (history st1) + jog_unsent st1
          = sent_total (history st) + jog_unsent st + event_units ev"
    by blast
  from Cons.IH[OF s(2)] obtain st' where
    r: "run iter L evs st1 = Inr st'" "handler_inv st'"
       "sent_total (history st') + jog_unsent st'
          = sent_total (history st1) + jog_unsent st1 + native_total evs"
    by blast
  show ?case
    using s r by (simp add: native_total_def)
qed

lemma run_append:
  "run iter L (evs @ evs') st = and_then (run iter L evs st) (run iter L evs')"
  by (induction evs arbitrary: st) (simp_all add: and_then_def split: sum.splits)

lemma handler_inv_handler0: "handler_inv handler0"
  by (simp add: handler_inv_def handler0_def modifiers_paired_def)

lemma key_of_index_inverse: "key_of_index (key_index k) = k"
  by (cases k) (simp_all add: key_of_index_def)

lemma set_iteration_index_order: "set_iteration index_order"
proof -
  have "visits index_order S" if "finite S" for S
  proof -
    have "set (index_order S) = key_of_index ` key_index ` S"
      using that by (simp add: index_order_def)
    also have "\<dots> = S"
      by (simp add: image_image key_of_index_inverse)
    finally have 1: "set (index_order S) = S" .
    have "inj_on key_of_index (key_index ` S)"
      by (rule inj_onI) (auto simp: key_of_index_inverse)
    then have 2: "distinct (index_order S)"
      using that by (simp add: index_order_def distinct_map)
    from 1 2 show ?thesis by (simp add: visits_def)
  qed
  then show ?thesis by (simp add: set_iteration_def)
qed

text \<open>
  C2. No rotation is lost. For every run of the handler from its construction (jog
  calls, key updates that may switch the jog mode, inbound messages and timer fires in
  any order) the run returns, and the native units taken in, \<^verbatim>\<open>value // 360\<close> added over
  the jog calls, equal the step counts sent, each times the factor of the mode it was
  sent in, plus the remainder \<open>jog_unsent\<close> at the end. A key press, and so a switch of
  the mode, leaves \<open>jog_unsent\<close> as it is.
\<close>

theorem jog_rotation_conserved:
  assumes "set_iteration iter"
  shows "(\<exists>st. run iter L evs handler0 = Inr st
            \<and> native_total evs = sent_total (history st) + jog_unsent st)
     \<and> jog_unsent (key_pressed k s) = jog_unsent s"
proof -
  from run_inv[OF assms handler_inv_handler0, of L evs] obtain st where
    "run iter L evs handler0 = Inr st"
    "sent_total (history st) + jog_unsent st
       = sent_total (history handler0) + jog_unsent handler0 + native_total evs"
    by blast
  then have "run iter L evs handler0 = Inr st
      \<and> native_total evs = sent_total (history st) + jog_unsent st"
    by (simp add: handler0_def sent_total_def)
  then show ?thesis by auto
qed

theorem jog_rotation_conserved_witness:
  "set_iteration index_order
   \<and> (\<exists>st. run index_order example_leds
              [Ev_jog RELATIVE_2 2520, Ev_key [SCRL], Ev_jog RELATIVE_2 (- 2880)] handler0 = Inr st
          \<and> native_total [Ev_jog RELATIVE_2 2520, Ev_key [SCRL], Ev_jog RELATIVE_2 (- 2880)]
              = sent_total (history st) + jog_unsent st)"
  using jog_rotation_conserved[OF set_iteration_index_order, of example_leds
      "[Ev_jog RELATIVE_2 2520, Ev_key [SCRL], Ev_jog RELATIVE_2 (- 2880)]"]
  by (intro conjI set_iteration_index_order) blast

text \<open>
  C3. For every run of the handler from its construction, a jog call made after it
  returns and leaves the magnitude of \<open>jog_unsent\<close> below the factor of the jog mode of
  that call, which is 20 for \<open>SHTL\<close>, 15 for \<open>JOG\<close> and 1 for \<open>SCRL\<close>.
\<close>

theorem jog_remainder_bound:
  assumes "set_iteration iter"
  shows "\<exists>st0 st. run iter L evs handler0 = Inr st0 \<and> jog mode d st0 = Inr st
      \<and> run iter L (evs @ [Ev_jog mode d]) handler0 = Inr st
      \<and> \<bar>jog_unsent st\<bar> < factor_of (jog_mode st0)
      \<and> (jog_mode st0, factor_of (jog_mode st0)) \<in> {(SHTL, 20), (JOG, 15), (SCRL, 1)}"
proof -
  from run_inv[OF assms handler_inv_handler0, of L evs] obtain st0 where
    r: "run iter L evs handler0 = Inr st0" and i: "handler_inv st0"
    by blast
  from jog_inv[OF i, of mode d] obtain st where
    j: "jog mode d st0 = Inr st" "0 \<le> jog_unsent st" "jog_unsent st < factor_of (jog_mode st0)"
    by blast
  have "run iter L (evs @ [Ev_jog mode d]) handler0 = Inr st"
    by (simp add: run_append r j(1) and_then_def)
  moreover have "\<bar>jog_unsent st\<bar> < factor_of (jog_mode st0)"
    using j(2,3) by simp
  moreover have "(jog_mode st0, factor_of (jog_mode st0)) \<in> {(SHTL, 20), (JOG, 15), (SCRL, 1)}"
    using i by (auto simp: handler_inv_def factor_of_def JOG_SPEED_DIV_FACTOR_def)
  ultimately show ?thesis using r j(1) by blast
qed

theorem jog_remainder_bound_witness:
  "set_iteration index_order
   \<and> (\<exists>st0 st. run index_order example_leds [Ev_key [SHTL]] handler0 = Inr st0
        \<and> jog RELATIVE_2 (- 360) st0 = Inr st
        \<and> run index_order example_leds ([Ev_key [SHTL]] @ [Ev_jog RELATIVE_2 (- 360)]) handler0
            = Inr st
        \<and> \<bar>jog_unsent st\<bar> < factor_of (jog_mode st0)
        \<and> (jog_mode st0, factor_of (jog_mode st0)) \<in> {(SHTL, 20), (JOG, 15), (SCRL, 1)})"
  using jog_remainder_bound[OF set_iteration_index_order, of example_leds "[Ev_key [SHTL]]"
      RELATIVE_2 "- 360"]
  by (intro conjI set_iteration_index_order)

text \<open>
  C10. In every state the handler reaches from its construction by key updates, jog
  calls, inbound messages and timer fires, at most one timer is outstanding, and one is
  exactly when \<^verbatim>\<open>zoom_timer_on\<close> is set. \<^verbatim>\<open>set_zoom_timer\<close> starts a timer only if the flag is
  clear and sets it; a timer fire clears the flag and then calls \<^verbatim>\<open>zoom_handle_keys\<close>,
  which starts a timer only if a zoom key is held and the flag is clear, and changes
  nothing if no zoom key is held.
\<close>

theorem zoom_timer_single:
  assumes "set_iteration iter"
  shows "(\<exists>st. run iter L evs handler0 = Inr st \<and> timers st \<le> 1
            \<and> (zoom_timer_on st \<longleftrightarrow> timers st = 1))
     \<and> set_zoom_timer s
         = (if zoom_timer_on s then s else s\<lparr>zoom_timer_on := True, timers := Suc (timers s)\<rparr>)
     \<and> timer_fire s = zoom_handle_keys (s\<lparr>timers := timers s - 1, zoom_timer_on := False\<rparr>)
     \<and> timers (zoom_handle_keys s)
         = (if (IN \<in> keys s \<or> OUT \<in> keys s \<or> TRIM_IN \<in> keys s \<or> TRIM_OUT \<in> keys s)
               \<and> \<not> zoom_timer_on s
            then Suc (timers s) else timers s)
     \<and> (IN \<notin> keys s \<and> OUT \<notin> keys s \<and> TRIM_IN \<notin> keys s \<and> TRIM_OUT \<notin> keys s
          \<longrightarrow> zoom_handle_keys s = s)"
proof -
  from run_inv[OF assms handler_inv_handler0, of L evs] obtain st where
    "run iter L evs handler0 = Inr st" "handler_inv st"
    by blast
  then have 1: "\<exists>st. run iter L evs handler0 = Inr st \<and> timers st \<le> 1
            \<and> (zoom_timer_on st \<longleftrightarrow> timers st = 1)"
    by (auto simp: handler_inv_def)
  have 2: "set_zoom_timer s
         = (if zoom_timer_on s then s else s\<lparr>zoom_timer_on := True, timers := Suc (timers s)\<rparr>)"
    by (simp add: set_zoom_timer_def)
  have 3: "timer_fire s = zoom_handle_keys (s\<lparr>timers := timers s - 1, zoom_timer_on := False\<rparr>)"
    by (simp add: timer_fire_def zoom_repeat_def)
  have 4: "timers (zoom_handle_keys s)
         = (if (IN \<in> keys s \<or> OUT \<in> keys s \<or> TRIM_IN \<in> keys s \<or> TRIM_OUT \<in> keys s)
               \<and> \<not> zoom_timer_on s
            then Suc (timers s) else timers s)"
    by (simp add: zoom_handle_keys_timer ZOOM_KEYS_def)
  have 5: "IN \<notin> keys s \<and> OUT \<notin> keys s \<and> TRIM_IN \<notin> keys s \<and> TRIM_OUT \<notin> keys s
          \<longrightarrow> zoom_handle_keys s = s"
    by (simp add: zoom_handle_keys_idle ZOOM_KEYS_def)
  from 1 2 3 4 5 show ?thesis by (intro conjI)
qed

theorem zoom_timer_single_witness:
  "set_iteration index_order
   \<and> (\<exists>st. run index_order example_leds [Ev_key [IN], Ev_timer, Ev_key [], Ev_timer] handler0
              = Inr st
          \<and> timers st \<le> 1 \<and> (zoom_timer_on st \<longleftrightarrow> timers st = 1))
   \<and> zoom_handle_keys handler0 = handler0"
proof -
  have k: "IN \<notin> keys handler0 \<and> OUT \<notin> keys handler0 \<and> TRIM_IN \<notin> keys handler0
      \<and> TRIM_OUT \<notin> keys handler0"
    by (simp add: handler0_def)
  show ?thesis
    using zoom_timer_single[OF set_iteration_index_order, of example_leds
        "[Ev_key [IN], Ev_timer, Ev_key [], Ev_timer]" handler0] k
    by (intro conjI set_iteration_index_order) blast+
qed

subsection \<open>Releasing a modifier\<close>

lemma for_released_raises:
  "ROLL \<in> set rs \<Longrightarrow> NUDGE \<notin> modifiers st \<Longrightarrow> for_released rs st = Inl KeyError"
proof (induction rs arbitrary: st)
  case Nil
  then show ?case by simp
next
  case (Cons k rs)
  show ?case
  proof (cases "k = ROLL")
    case True
    with Cons.prems show ?thesis by (simp add: key_released_eq)
  next
    case False
    with Cons.prems have "ROLL \<in> set rs" by simp
    from Cons.IH[OF this, of "st\<lparr>history := history st @ [Released k]\<rparr>"] Cons.prems(2) False
    show ?thesis by (simp add: key_released_eq)
  qed
qed

lemma MODIFIER_KEY_MAP_Some: "MODIFIER_KEY_MAP k = Some m \<longleftrightarrow> k = ROLL \<and> m = NUDGE"
  by (cases m) (simp add: MODIFIER_KEY_MAP_def)

text \<open>
  C4, as the code has it. On the release of a key mapped to a modifier, the modifier is
  removed if it is in \<^verbatim>\<open>modifiers\<close>. If it is not, \<^verbatim>\<open>set.remove\<close> raises \<^verbatim>\<open>KeyError\<close> and
  nothing catches it: \<^verbatim>\<open>key_released\<close> raises, and so does the key update in which the key
  is among the released ones.
\<close>

theorem modifier_released_raises:
  assumes "MODIFIER_KEY_MAP k = Some m"
  shows "modifier_released k st
       = (if m \<in> modifiers st then Inr (st\<lparr>modifiers := modifiers st - {m}\<rparr>)
          else Inl KeyError)
     \<and> (m \<notin> modifiers st \<longrightarrow> key_released k st = Inl KeyError)
     \<and> (m \<notin> modifiers st \<and> k \<in> set (iter (keys st - set ks))
          \<longrightarrow> key iter ks st = Inl KeyError)"
proof -
  from assms have km: "k = ROLL" "m = NUDGE" by (simp_all add: MODIFIER_KEY_MAP_Some)
  have 1: "modifier_released k st
       = (if m \<in> modifiers st then Inr (st\<lparr>modifiers := modifiers st - {m}\<rparr>)
          else Inl KeyError)"
    by (simp add: modifier_released_def km MODIFIER_KEY_MAP_def)
  have 2: "m \<notin> modifiers st \<longrightarrow> key_released k st = Inl KeyError"
    by (simp add: key_released_eq km)
  have 3: "m \<notin> modifiers st \<and> k \<in> set (iter (keys st - set ks))
          \<longrightarrow> key iter ks st = Inl KeyError"
  proof
    assume a: "m \<notin> modifiers st \<and> k \<in> set (iter (keys st - set ks))"
    then have "for_released (iter (keys st - set ks)) (st\<lparr>keys := set ks\<rparr>) = Inl KeyError"
      by (intro for_released_raises) (simp_all add: km)
    then show "key iter ks st = Inl KeyError"
      by (simp add: key_def Let_def)
  qed
  from 1 2 3 show ?thesis by (intro conjI)
qed

theorem modifier_released_raises_witness:
  "MODIFIER_KEY_MAP ROLL = Some NUDGE
   \<and> modifier_released ROLL (handler0\<lparr>modifiers := {NUDGE}\<rparr>) = Inr handler0
   \<and> key_released ROLL handler0 = Inl KeyError"
proof -
  have m: "MODIFIER_KEY_MAP ROLL = Some NUDGE" by (simp add: MODIFIER_KEY_MAP_def)
  show ?thesis
    using modifier_released_raises[OF m, of "handler0\<lparr>modifiers := {NUDGE}\<rparr>"]
      modifier_released_raises[OF m, of handler0] m
    by (simp add: handler0_def)
qed

lemma index_order_visits: "finite S \<Longrightarrow> visits index_order S"
  using set_iteration_index_order by (simp add: set_iteration_def)

lemma distinct_singleton:
  assumes "set xs = {k}" "distinct xs"
  shows "xs = [k]"
proof (cases xs)
  case Nil
  with assms(1) show ?thesis by simp
next
  case (Cons a ys)
  with assms have a: "a = k" and s: "set ys \<subseteq> {k}" "k \<notin> set ys" by auto
  have "\<forall>y. y \<notin> set ys" using s by blast
  then have "ys = []" by (cases ys) auto
  with Cons a show ?thesis by simp
qed

lemma index_order_single: "index_order {k} = [k]"
proof -
  have "set (index_order {k}) = {k}" "distinct (index_order {k})"
    using index_order_visits[of "{k}"] by (simp_all add: visits_def)
  then show ?thesis by (rule distinct_singleton)
qed

text \<open>
  The specification asks for a release that tolerates the absent modifier; the code
  has none:
  with no modifier active the release of \<open>ROLL\<close> raises, and a key update that finds
  \<open>ROLL\<close> released ends in the error.
\<close>

theorem modifier_released_counterexample:
  "modifier_released ROLL handler0 = Inl KeyError
   \<and> key index_order [] (handler0\<lparr>keys := {ROLL}\<rparr>) = Inl KeyError"
  by (simp add: modifier_released_def MODIFIER_KEY_MAP_def handler0_def key_def Let_def
      index_order_single key_released_def)

subsection \<open>A key update at work\<close>

theorem key_edges_witness:
  "visits index_order (keys (handler0\<lparr>keys := {ROLL, CUT}, modifiers := {NUDGE}\<rparr>) - set [CUT, SPLIT])
   \<and> visits index_order (set [CUT, SPLIT] - keys (handler0\<lparr>keys := {ROLL, CUT}, modifiers := {NUDGE}\<rparr>))
   \<and> modifiers_paired (handler0\<lparr>keys := {ROLL, CUT}, modifiers := {NUDGE}\<rparr>)
   \<and> (\<exists>st'. key index_order [CUT, SPLIT] (handler0\<lparr>keys := {ROLL, CUT}, modifiers := {NUDGE}\<rparr>) = Inr st'
         \<and> keys st' = {CUT, SPLIT}
         \<and> history st' = [Released ROLL, Pressed SPLIT])"
proof -
  let ?st = "handler0\<lparr>keys := {ROLL, CUT}, modifiers := {NUDGE}\<rparr>"
  have v1: "visits index_order (keys ?st - set [CUT, SPLIT])"
    and v2: "visits index_order (set [CUT, SPLIT] - keys ?st)"
    by (rule index_order_visits, simp)+
  have p: "modifiers_paired ?st" by (simp add: modifiers_paired_def)
  from key_edges[OF v1 v2 p] obtain st' rs ps where
    k: "key index_order [CUT, SPLIT] ?st = Inr st'" "keys st' = set [CUT, SPLIT]"
       "history st' = history ?st @ map Released rs @ map Pressed ps"
       "set rs = {k. k \<in> keys ?st \<and> k \<notin> set [CUT, SPLIT]}" "distinct rs"
       "set ps = {k. k \<in> set [CUT, SPLIT] \<and> k \<notin> keys ?st}" "distinct ps"
    by blast
  have "set rs = {ROLL}" using k(4) by auto
  with k(5) have rs: "rs = [ROLL]" by (intro distinct_singleton)
  have "set ps = {SPLIT}" using k(6) by auto
  with k(7) have ps: "ps = [SPLIT]" by (intro distinct_singleton)
  have "history st' = [Released ROLL, Pressed SPLIT]"
    using k(3) by (simp add: rs ps handler0_def)
  moreover have "keys st' = {CUT, SPLIT}" using k(2) by auto
  ultimately show ?thesis using v1 v2 p k(1) by blast
qed

subsection \<open>Two handlers\<close>

lemma init_ports:
  "init c [''mackieIn''] [''mackieOut''] = Inr (handler0\<lparr>modifiers := modifiers c\<rparr>)"
  by (simp add: init_def set_jog_mode_for_key_def JOG_table_def find_device_in_list_def
      startswith_def midi_in_device_def midi_out_device_def handler0_def)

lemma two_handlers_eq:
  "two_handlers = Inr \<lparr>class_modifiers = {},
      instances = [MackieHandler_class.more handler0, MackieHandler_class.more handler0]\<rparr>"
  by (simp add: two_handlers_def construct_def and_then_def process0_def init_ports)

lemma index_order_empty: "index_order {} = []"
  by (simp add: index_order_def)

lemma key_ROLL_handler0:
  "key index_order [ROLL] (handler0\<lparr>modifiers := M\<rparr>)
     = Inr (handler0\<lparr>modifiers := insert NUDGE M, keys := {ROLL}, history := [Pressed ROLL]\<rparr>)"
  by (simp add: key_def Let_def handler0_def index_order_single index_order_empty key_pressed_def
      set_jog_mode_for_key_def JOG_table_def modifier_pressed_def MODIFIER_KEY_MAP_def
      ZOOM_KEYS_def)

lemma self_of_handler0:
  "i < length (instances p) \<Longrightarrow> instances p ! i = MackieHandler_class.more handler0 \<Longrightarrow>
   self_of p i = handler0\<lparr>modifiers := class_modifiers p\<rparr>"
  by (simp add: self_of_def handler0_def)

text \<open>
  C5 does not hold of the code: the set of modifiers is one object of the class. Of two
  handlers constructed in one process, the second sees no modifier at first; after the
  first alone is told that \<open>ROLL\<close> is held, the second sees \<open>NUDGE\<close> active, though its own
  held keys are still none; and a third handler constructed then starts with \<open>NUDGE\<close>
  active.
\<close>

theorem modifiers_shared_by_instances:
  "modifiers_of 1 two_handlers = Inr {}
   \<and> modifiers_of 1 (and_then two_handlers (call_on 0 (key index_order [ROLL]))) = Inr {NUDGE}
   \<and> keys_of 0 (and_then two_handlers (call_on 0 (key index_order [ROLL]))) = Inr {ROLL}
   \<and> keys_of 1 (and_then two_handlers (call_on 0 (key index_order [ROLL]))) = Inr {}
   \<and> modifiers_of 2 (and_then (and_then two_handlers (call_on 0 (key index_order [ROLL])))
                        (construct [''mackieIn''] [''mackieOut''])) = Inr {NUDGE}"
proof -
  let ?p = "\<lparr>class_modifiers = {},
      instances = [MackieHandler_class.more handler0, MackieHandler_class.more handler0]\<rparr>"
  let ?h = "handler0\<lparr>modifiers := {NUDGE}, keys := {ROLL}, history := [Pressed ROLL]\<rparr>"
  let ?q = "\<lparr>class_modifiers = {NUDGE},
      instances = [MackieHandler_class.more ?h, MackieHandler_class.more handler0]\<rparr>"
  have s0: "self_of ?p 0 = handler0\<lparr>modifiers := {}\<rparr>"
    by (simp add: self_of_handler0)
  have c: "and_then two_handlers (call_on 0 (key index_order [ROLL])) = Inr ?q"
    by (simp add: two_handlers_eq and_then_def call_on_def s0 key_ROLL_handler0 store_self_def)
  have 1: "modifiers_of 1 two_handlers = Inr {}"
    by (simp add: modifiers_of_def two_handlers_eq and_then_def self_of_def)
  have 2: "modifiers_of 1 (Inr ?q) = Inr {NUDGE}"
    by (simp add: modifiers_of_def and_then_def self_of_def)
  have 3: "keys_of 0 (Inr ?q) = Inr {ROLL}"
    by (simp add: keys_of_def and_then_def self_of_def handler0_def)
  have 4: "keys_of 1 (Inr ?q) = Inr {}"
    by (simp add: keys_of_def and_then_def self_of_def handler0_def)
  have 5: "modifiers_of 2 (and_then (Inr ?q) (construct [''mackieIn''] [''mackieOut'']))
      = Inr {NUDGE}"
    by (simp add: modifiers_of_def and_then_def construct_def init_ports self_of_def)
  from 1 2 3 4 5 show ?thesis unfolding c by (intro conjI)
qed

lemma self_of_more:
  "instances p ! i = MackieHandler_class.more st \<Longrightarrow>
   self_of p i = st\<lparr>modifiers := class_modifiers p\<rparr>"
  by (cases st) (simp add: self_of_def)

lemma key_none_released:
  "keys st = {ROLL} \<Longrightarrow> NUDGE \<in> modifiers st \<Longrightarrow>
   key index_order [] st
     = Inr (st\<lparr>keys := {}, modifiers := modifiers st - {NUDGE},
               history := history st @ [Released ROLL]\<rparr>)"
  by (simp add: key_def Let_def index_order_single index_order_empty key_released_eq)

lemma key_none_raises:
  "keys st = {ROLL} \<Longrightarrow> NUDGE \<notin> modifiers st \<Longrightarrow> key index_order [] st = Inl KeyError"
  by (simp add: key_def Let_def index_order_single key_released_eq)

text \<open>
  With two handlers the modifiers need not be paired: both are told that \<open>ROLL\<close> is held,
  then both that it is released. The release through the first removes \<open>NUDGE\<close> from the
  one set, and the release through the second raises.
\<close>

lemma two_handlers_release_raises:
  "and_then (and_then (and_then (and_then two_handlers
       (call_on 0 (key index_order [ROLL])))
       (call_on 1 (key index_order [ROLL])))
       (call_on 0 (key index_order [])))
       (call_on 1 (key index_order []))
   = Inl KeyError"
proof -
  let ?h = "handler0\<lparr>modifiers := {NUDGE}, keys := {ROLL}, history := [Pressed ROLL]\<rparr>"
  let ?p = "\<lparr>class_modifiers = {},
      instances = [MackieHandler_class.more handler0, MackieHandler_class.more handler0]\<rparr>"
  let ?q1 = "\<lparr>class_modifiers = {NUDGE},
      instances = [MackieHandler_class.more ?h, MackieHandler_class.more handler0]\<rparr>"
  let ?q2 = "\<lparr>class_modifiers = {NUDGE},
      instances = [MackieHandler_class.more ?h, MackieHandler_class.more ?h]\<rparr>"
  let ?g = "?h\<lparr>keys := {}, modifiers := {}, history := [Pressed ROLL, Released ROLL]\<rparr>"
  let ?q3 = "\<lparr>class_modifiers = {},
      instances = [MackieHandler_class.more ?g, MackieHandler_class.more ?h]\<rparr>"
  have 1: "call_on 0 (key index_order [ROLL]) ?p = Inr ?q1"
    by (simp add: call_on_def self_of_more[where st = handler0] key_ROLL_handler0 store_self_def)
  have 2: "call_on 1 (key index_order [ROLL]) ?q1 = Inr ?q2"
    by (simp add: call_on_def self_of_more[where st = handler0] key_ROLL_handler0 store_self_def)
  have 3: "call_on 0 (key index_order []) ?q2 = Inr ?q3"
    by (simp add: call_on_def self_of_more[where st = ?h] key_none_released store_self_def)
  have 4: "call_on 1 (key index_order []) ?q3 = Inl KeyError"
    by (simp add: call_on_def self_of_more[where st = ?h] key_none_raises)
  show ?thesis
    by (simp only: two_handlers_eq and_then_def 1 2 3 4 sum.case)
qed

subsection \<open>The LED mask along runs\<close>

lemma leds_zoom_handle_keys [simp]: "leds (zoom_handle_keys st) = leds st"
  by (simp add: zoom_handle_keys_def Let_def set_zoom_mode_def set_zoom_timer_def
      send_midi_note_def)

lemma leds_key_pressed [simp]: "leds (key_pressed k st) = leds st"
  by (cases k; simp add: key_pressed_def Let_def set_jog_mode_for_key_def JOG_table_def
      modifier_pressed_def MODIFIER_KEY_MAP_def send_midi_note_def ZOOM_KEYS_def)

lemma leds_for_pressed [simp]: "leds (for_pressed ps st) = leds st"
  by (induction ps arbitrary: st) simp_all

lemma leds_timer_fire [simp]: "leds (timer_fire st) = leds st"
  by (simp add: timer_fire_def zoom_repeat_def)

lemma and_flag_invert_self: "x AND flag_invert L x = 0"
  by (rule bit_eqI) (simp add: flag_invert_def bit_and_iff bit_not_iff)

lemma leds_receive:
  "leds st = 0 \<or> leds st = led_set L \<Longrightarrow>
   leds (receive L msg st) = 0 \<or> leds (receive L msg st) = led_set L"
  by (auto simp: receive_def Let_def and_flag_invert_self)

lemma step_leds:
  assumes "set_iteration iter" "handler_inv st" "step iter L ev st = Inr st'"
    and "leds st = 0 \<or> leds st = led_set L"
  shows "leds st' = 0 \<or> leds st' = led_set L"
proof (cases ev)
  case (Ev_key ks)
  have "finite (keys st)" "modifiers_paired st"
    using assms(2) by (simp_all add: handler_inv_def)
  then have "visits iter (keys st - set ks)" "modifiers_paired st"
    using assms(1) by (simp_all add: set_iteration_def)
  from key_effect[OF this] assms(3) Ev_key have "leds st' = leds st"
    by auto
  with assms(4) show ?thesis by simp
next
  case (Ev_jog mode d)
  from assms(2) have "jog_mode st \<in> {SHTL, JOG, SCRL}" by (simp add: handler_inv_def)
  from jog_mode_factor[OF this] obtain f where
    "JOG_SPEED_DIV_FACTOR (jog_mode st) = Some f" by blast
  from jog_effect[OF this, of mode d] assms(3) Ev_jog have "leds st' = leds st"
    by auto
  with assms(4) show ?thesis by simp
next
  case (Ev_receive msg)
  with assms(3) have "st' = receive L msg st" by simp
  with leds_receive[OF assms(4), of msg] show ?thesis by simp
next
  case Ev_timer
  with assms(3) have "leds st' = leds st" by (auto split: if_splits)
  with assms(4) show ?thesis by simp
qed

lemma run_leds:
  assumes "set_iteration iter" "handler_inv st" "leds st = 0 \<or> leds st = led_set L"
  shows "\<exists>st'. run iter L evs st = Inr st' \<and> (leds st' = 0 \<or> leds st' = led_set L)"
  using assms(2,3)
proof (induction evs arbitrary: st)
  case Nil
  then show ?case by simp
next
  case (Cons ev evs)
  from step_inv[OF assms(1) Cons.prems(1), of L ev] obtain st1 where
    s: "step iter L ev st = Inr st1" "handler_inv st1" by blast
  from step_leds[OF assms(1) Cons.prems(1) s(1) Cons.prems(2)]
  have "leds st1 = 0 \<or> leds st1 = led_set L" .
  from Cons.IH[OF s(2) this] show ?case by (simp add: s(1))
qed

text \<open>
  Every mask the handler holds is a mask of LED flags: along every run from the
  construction it is 0 or the camera group.
\<close>

lemma run_led_flags_only:
  assumes "set_iteration iter" "led_flags_only L (led_set L)"
  shows "\<exists>st. run iter L evs handler0 = Inr st \<and> led_flags_only L (leds st)"
proof -
  have "leds handler0 = 0 \<or> leds handler0 = led_set L" by (simp add: handler0_def)
  from run_leds[OF assms(1) handler_inv_handler0 this, of evs] obtain st where
    st: "run iter L evs handler0 = Inr st" "leds st = 0 \<or> leds st = led_set L" by blast
  from st(2) assms(2) have "led_flags_only L (leds st)"
    by (auto simp: led_flags_only_def)
  with st(1) show ?thesis by blast
qed

end
